theory Spec2Isabelle
  imports Complex_Main "HOL-Library.Word" "HOL-Library.AList"
begin

section \<open>Data model of \<open>sixg-wigig-sim.cc\<close>\<close>

text \<open>
  Node identifiers are \<open>uint32_t\<close>, the evaluation counters \<open>uint64_t\<close>. In the
  ledger a C++ \<open>double\<close> is a real number and its arithmetic exact. In the routing
  engine and in the callbacks a \<open>double\<close> is an IEEE 754 binary64 value, with the
  rounding, the overflow to infinity and the NaN of the machine arithmetic: the type
  \<open>double\<close> of the section on doubles.
\<close>

type_synonym uint32_t = "32 word"
type_synonym uint64_t = "64 word"

definition UINT32_MAX :: uint32_t where
  "UINT32_MAX = 4294967295"

text \<open>The six process-wide counters (lines 39-44).\<close>

record counters =
  g_phyDrops :: uint64_t
  g_l3Drops :: uint64_t
  g_blackholeL3Drops :: uint64_t
  g_routeSkips :: uint64_t
  g_trustPenalties :: uint64_t
  g_maliciousDrops :: uint64_t

definition counters_zero :: counters where
  "counters_zero = \<lparr>g_phyDrops = 0, g_l3Drops = 0, g_blackholeL3Drops = 0,
     g_routeSkips = 0, g_trustPenalties = 0, g_maliciousDrops = 0\<rparr>"

text \<open>\<open>struct LinkMetric\<close> and its default constructor (lines 53-59).\<close>

record LinkMetric =
  movingAvgSnr :: real
  drops :: uint32_t
  trust :: real

definition LinkMetric_new :: LinkMetric where
  "LinkMetric_new = \<lparr>movingAvgSnr = 0.0, drops = 0, trust = 1.0\<rparr>"

text \<open>
  \<open>class BlockchainLedger\<close> (lines 64-191). The \<open>std::map\<close> \<open>m_ledger\<close> is an
  association list with distinct keys; a new key is appended. The only loop over the
  map (\<open>IsBlackhole\<close>) counts entries, so the order of the entries is not observable.
\<close>

type_synonym link_key = "uint32_t \<times> uint32_t"

record BlockchainLedger =
  m_ledger :: "(link_key \<times> LinkMetric) list"
  m_blackholes :: "uint32_t set"
  m_lossThreshold :: real
  m_defaultTrust :: real
  m_defaultSnr :: real

definition BlockchainLedger_new :: BlockchainLedger where
  "BlockchainLedger_new = \<lparr>m_ledger = [], m_blackholes = {},
     m_lossThreshold = 0.5, m_defaultTrust = 1.0, m_defaultSnr = 20.0\<rparr>"

definition MakeKey :: "uint32_t \<Rightarrow> uint32_t \<Rightarrow> link_key" where
  "MakeKey a b = (min a b, max a b)"

text \<open>
  \<open>UpdateMetric\<close> (lines 68-114) writes the ledger and the global counter
  \<open>g_trustPenalties\<close>; both are passed in and returned.
\<close>

definition UpdateMetric ::
  "uint32_t \<Rightarrow> uint32_t \<Rightarrow> real \<Rightarrow> bool \<Rightarrow> bool \<Rightarrow>
   BlockchainLedger \<times> counters \<Rightarrow> BlockchainLedger \<times> counters" where
  "UpdateMetric src dst snr isDrop useBlockchain s =
    (let (L, G) = s;
         key = MakeKey src dst;
         metric = (case map_of (m_ledger L) key of None \<Rightarrow> LinkMetric_new | Some m \<Rightarrow> m);
         metric1 = (if snr > 0.0
                    then metric\<lparr>movingAvgSnr := 0.3 * snr + (1.0 - 0.3) * movingAvgSnr metric\<rparr>
                    else metric)
     in if isDrop \<and> useBlockchain then
          (L\<lparr>m_ledger := AList.update key
                (metric1\<lparr>drops := drops metric1 + 1,
                          trust := max 0.3 (trust metric1 * 0.5)\<rparr>) (m_ledger L)\<rparr>,
           G\<lparr>g_trustPenalties := g_trustPenalties G + 1\<rparr>)
        else if isDrop then
          (L\<lparr>m_ledger := AList.update key (metric1\<lparr>drops := drops metric1 + 1\<rparr>) (m_ledger L)\<rparr>, G)
        else
          (L\<lparr>m_ledger := AList.update key metric1 (m_ledger L)\<rparr>, G))"

definition GetTrust :: "BlockchainLedger \<Rightarrow> uint32_t \<Rightarrow> uint32_t \<Rightarrow> real" where
  "GetTrust L src dst =
    (case map_of (m_ledger L) (MakeKey src dst) of
       Some m \<Rightarrow> trust m
     | None \<Rightarrow> m_defaultTrust L)"

definition GetSnr :: "BlockchainLedger \<Rightarrow> uint32_t \<Rightarrow> uint32_t \<Rightarrow> real" where
  "GetSnr L src dst =
    (case map_of (m_ledger L) (MakeKey src dst) of
       Some m \<Rightarrow> (if movingAvgSnr m > 0.0 then movingAvgSnr m else m_defaultSnr L)
     | None \<Rightarrow> m_defaultSnr L)"

text \<open>
  \<open>IsBlackhole\<close> (lines 149-175): the two \<open>uint32_t\<close> counters of the loop, then the
  ratio of their values as doubles.
\<close>

fun IsBlackhole_count ::
  "uint32_t \<Rightarrow> (link_key \<times> LinkMetric) list \<Rightarrow> uint32_t \<times> uint32_t \<Rightarrow> uint32_t \<times> uint32_t" where
  "IsBlackhole_count nodeId [] acc = acc"
| "IsBlackhole_count nodeId (((n1, n2), m) # rest) (lowTrustLinks, totalLinks) =
     (if n1 = nodeId \<or> n2 = nodeId
      then IsBlackhole_count nodeId rest
             (if trust m < 0.3 then lowTrustLinks + 1 else lowTrustLinks, totalLinks + 1)
      else IsBlackhole_count nodeId rest (lowTrustLinks, totalLinks))"

definition IsBlackhole :: "BlockchainLedger \<Rightarrow> uint32_t \<Rightarrow> bool" where
  "IsBlackhole L nodeId =
    (let (lowTrustLinks, totalLinks) = IsBlackhole_count nodeId (m_ledger L) (0, 0)
     in totalLinks > 0 \<and> real (unat lowTrustLinks) / real (unat totalLinks) > 0.5)"

text \<open>A run of the ledger: a sequence of \<open>UpdateMetric\<close> calls, each with its arguments.\<close>

record update_call =
  u_src :: uint32_t
  u_dst :: uint32_t
  u_snr :: real
  u_isDrop :: bool
  u_useBlockchain :: bool

definition apply_call :: "update_call \<Rightarrow> BlockchainLedger \<times> counters \<Rightarrow> BlockchainLedger \<times> counters" where
  "apply_call c s = UpdateMetric (u_src c) (u_dst c) (u_snr c) (u_isDrop c) (u_useBlockchain c) s"

fun run_calls :: "update_call list \<Rightarrow> BlockchainLedger \<times> counters \<Rightarrow> BlockchainLedger \<times> counters" where
  "run_calls [] s = s"
| "run_calls (c # cs) s = run_calls cs (apply_call c s)"


subsection \<open>Vocabulary for the ledger properties\<close>

definition trust_ok :: "LinkMetric \<Rightarrow> bool" where
  "trust_ok m = (0.3 \<le> trust m \<and> trust m \<le> 1.0)"

text \<open>The trust a link has in the ledger: that of its record, or the 1.0 a record is created with.\<close>

definition stored_trust :: "BlockchainLedger \<Rightarrow> uint32_t \<Rightarrow> uint32_t \<Rightarrow> real" where
  "stored_trust L a b = (case map_of (m_ledger L) (MakeKey a b) of None \<Rightarrow> 1.0 | Some m \<Rightarrow> trust m)"

definition drop_call :: "uint32_t \<Rightarrow> uint32_t \<Rightarrow> real \<Rightarrow> update_call" where
  "drop_call a b snr = \<lparr>u_src = a, u_dst = b, u_snr = snr, u_isDrop = True, u_useBlockchain = True\<rparr>"

text \<open>A call that penalises the link of \<open>a\<close> and \<open>b\<close>: a drop, in Proposed mode, in either direction.\<close>

definition is_penalty_on :: "uint32_t \<Rightarrow> uint32_t \<Rightarrow> update_call \<Rightarrow> bool" where
  "is_penalty_on a b c =
     (MakeKey (u_src c) (u_dst c) = MakeKey a b \<and> u_isDrop c \<and> u_useBlockchain c)"

text \<open>The values \<open>GetTrust a b\<close> returns before the first call and after each call of a run.\<close>

fun trust_trace :: "uint32_t \<Rightarrow> uint32_t \<Rightarrow> update_call list \<Rightarrow> BlockchainLedger \<times> counters \<Rightarrow> real list" where
  "trust_trace a b [] s = [GetTrust (fst s) a b]"
| "trust_trace a b (c # cs) s = GetTrust (fst s) a b # trust_trace a b cs (apply_call c s)"

text \<open>
  The SNR values a run observes on the link of \<open>a\<close> and \<open>b\<close>: the arguments \<open>snr > 0\<close>, the
  only ones the moving average takes in. The convex hull of finitely many reals is the
  interval from the least to the greatest of them.
\<close>

definition observed_snrs :: "uint32_t \<Rightarrow> uint32_t \<Rightarrow> update_call list \<Rightarrow> real list" where
  "observed_snrs a b cs =
     map u_snr (filter (\<lambda>c. MakeKey (u_src c) (u_dst c) = MakeKey a b \<and> u_snr c > 0) cs)"

definition in_convex_hull :: "real \<Rightarrow> real list \<Rightarrow> bool" where
  "in_convex_hull x obs = (\<exists>lo \<in> set obs. \<exists>hi \<in> set obs. lo \<le> x \<and> x \<le> hi)"

text \<open>The moving average a link has in the ledger: that of its record, or the 0.0 a record is created with.\<close>

definition stored_snr :: "BlockchainLedger \<Rightarrow> uint32_t \<Rightarrow> uint32_t \<Rightarrow> real" where
  "stored_snr L a b = (case map_of (m_ledger L) (MakeKey a b) of None \<Rightarrow> 0.0 | Some m \<Rightarrow> movingAvgSnr m)"


section \<open>Doubles\<close>

text \<open>
  An IEEE 754 binary64 value: a finite number (\<open>Fin 0\<close> is \<open>+0.0\<close>), the negative zero,
  the two infinities, or a NaN. The finite doubles are the numbers \<open>n * 2 ^ k\<close> with
  \<open>\<bar>n\<bar> < 2 ^ 53\<close> and \<open>-1074 \<le> k \<le> 971\<close>; \<open>Fin\<close> takes any real, and the results of the
  operations below are doubles.
\<close>

datatype double = Fin real | NZero | PInf | MInf | NaN

subsection \<open>Rounding\<close>

text \<open>The integer nearest to \<open>r\<close>, the even one of two that are equally near.\<close>

definition rne :: "real \<Rightarrow> int" where
  "rne r = (let f = \<lfloor>r\<rfloor>; d = r - of_int f
            in if d < 1/2 then f else if 1/2 < d then f + 1 else if even f then f else f + 1)"

text \<open>
  The exponent of the binade of \<open>x\<close> (\<open>2 ^ e \<le> \<bar>x\<bar> < 2 ^ (e + 1)\<close>), that of the smallest
  normal number for the subnormal range, and the distance \<open>ulp\<close> of two neighbouring
  doubles there.
\<close>

definition expo :: "real \<Rightarrow> int" where
  "expo x = (if \<bar>x\<bar> < 2 powi (-1022) then -1022 else \<lfloor>log 2 \<bar>x\<bar>\<rfloor>)"

definition ulp :: "real \<Rightarrow> real" where
  "ulp x = 2 powi (expo x - 52)"

definition rd :: "real \<Rightarrow> real" where
  "rd x = of_int (rne (x / ulp x)) * ulp x"

text \<open>
  The double a real number rounds to in the default mode (to nearest, ties to even): a
  number that rounds to \<open>2 ^ 1024\<close> or beyond overflows to an infinity.
\<close>

definition fl :: "real \<Rightarrow> double" where
  "fl x = (if 2 powi 1024 \<le> rd x then PInf else if rd x \<le> - (2 powi 1024) then MInf else Fin (rd x))"

text \<open>A result that rounds to zero keeps the sign of the exact result.\<close>

definition rnd :: "bool \<Rightarrow> real \<Rightarrow> double" where
  "rnd neg x = (if neg \<and> fl x = Fin 0 then NZero else fl x)"

subsection \<open>Comparison and arithmetic\<close>

definition dcls :: "double \<Rightarrow> nat" where
  "dcls d = (case d of MInf \<Rightarrow> 0 | Fin r \<Rightarrow> 1 | NZero \<Rightarrow> 1 | PInf \<Rightarrow> 2 | NaN \<Rightarrow> 3)"

definition dval :: "double \<Rightarrow> real" where
  "dval d = (case d of Fin r \<Rightarrow> r | _ \<Rightarrow> 0)"

definition dsign :: "double \<Rightarrow> bool" where
  "dsign d = (case d of Fin r \<Rightarrow> r < 0 | NZero \<Rightarrow> True | MInf \<Rightarrow> True | _ \<Rightarrow> False)"

definition is_zero :: "double \<Rightarrow> bool" where
  "is_zero d = (d = Fin 0 \<or> d = NZero)"

definition is_inf :: "double \<Rightarrow> bool" where
  "is_inf d = (d = PInf \<or> d = MInf)"

text \<open>
  The operators \<open><\<close> and \<open><=\<close> of C++ on doubles: false when an operand is a NaN; the two
  zeros are equal.
\<close>

definition dless :: "double \<Rightarrow> double \<Rightarrow> bool" where
  "dless a b = (a \<noteq> NaN \<and> b \<noteq> NaN \<and> (dcls a < dcls b \<or> (dcls a = dcls b \<and> dval a < dval b)))"

definition dle :: "double \<Rightarrow> double \<Rightarrow> bool" where
  "dle a b = (a \<noteq> NaN \<and> b \<noteq> NaN \<and> (dcls a < dcls b \<or> (dcls a = dcls b \<and> dval a \<le> dval b)))"

definition inf_of :: "bool \<Rightarrow> double" where
  "inf_of neg = (if neg then MInf else PInf)"

definition zero_of :: "bool \<Rightarrow> double" where
  "zero_of neg = (if neg then NZero else Fin 0)"

definition dneg :: "double \<Rightarrow> double" where
  "dneg d = (case d of Fin r \<Rightarrow> if r = 0 then NZero else Fin (- r) | NZero \<Rightarrow> Fin 0
             | PInf \<Rightarrow> MInf | MInf \<Rightarrow> PInf | NaN \<Rightarrow> NaN)"

text \<open>
  The operators \<open>+\<close>, \<open>-\<close>, \<open>*\<close>, \<open>/\<close> and \<open>std::sqrt\<close>: the exact result, rounded once,
  each operation on its own (binary64 throughout, no fused multiply-add). A sum that is
  exactly zero is \<open>+0.0\<close> unless both operands are \<open>-0.0\<close>.
\<close>

definition dadd :: "double \<Rightarrow> double \<Rightarrow> double" where
  "dadd a b =
    (if a = NaN \<or> b = NaN then NaN
     else if is_inf a then (if is_inf b \<and> a \<noteq> b then NaN else a)
     else if is_inf b then b
     else if dval a + dval b = 0 then (if a = NZero \<and> b = NZero then NZero else Fin 0)
     else fl (dval a + dval b))"

definition dsub :: "double \<Rightarrow> double \<Rightarrow> double" where
  "dsub a b = dadd a (dneg b)"

definition dmul :: "double \<Rightarrow> double \<Rightarrow> double" where
  "dmul a b =
    (if a = NaN \<or> b = NaN then NaN
     else if is_inf a \<or> is_inf b
       then (if is_zero a \<or> is_zero b then NaN else inf_of (dsign a \<noteq> dsign b))
     else rnd (dsign a \<noteq> dsign b) (dval a * dval b))"

definition ddiv :: "double \<Rightarrow> double \<Rightarrow> double" where
  "ddiv a b =
    (if a = NaN \<or> b = NaN then NaN
     else if is_inf a then (if is_inf b then NaN else inf_of (dsign a \<noteq> dsign b))
     else if is_inf b then zero_of (dsign a \<noteq> dsign b)
     else if is_zero b then (if is_zero a then NaN else inf_of (dsign a \<noteq> dsign b))
     else rnd (dsign a \<noteq> dsign b) (dval a / dval b))"

definition dsqrt :: "double \<Rightarrow> double" where
  "dsqrt a = (case a of Fin r \<Rightarrow> if r < 0 then NaN else fl (sqrt r) | NZero \<Rightarrow> NZero
              | PInf \<Rightarrow> PInf | MInf \<Rightarrow> NaN | NaN \<Rightarrow> NaN)"

subsection \<open>An order for the proofs\<close>

text \<open>
  A linear order on all of \<open>double\<close>, which the proofs use: on the numbers that are not
  negative and on \<open>+infinity\<close> it is the comparison above (\<open>-0.0\<close> is placed below \<open>+0.0\<close>
  and NaN on top, to make the order linear).
\<close>

instantiation double :: linorder
begin

definition less_eq_double :: "double \<Rightarrow> double \<Rightarrow> bool" where
  "less_eq_double a b =
     (dcls a < dcls b \<or>
      (dcls a = dcls b \<and> (dval a < dval b \<or> (dval a = dval b \<and> (a = NZero \<or> b \<noteq> NZero)))))"

definition less_double :: "double \<Rightarrow> double \<Rightarrow> bool" where
  "less_double a b = (a \<le> b \<and> \<not> b \<le> (a::double))"

instance
proof
  fix x y z :: double
  show "(x < y) = (x \<le> y \<and> \<not> y \<le> x)" by (simp add: less_double_def)
  show "x \<le> x" by (cases x) (auto simp: less_eq_double_def)
  show "x \<le> y \<Longrightarrow> y \<le> z \<Longrightarrow> x \<le> z"
    by (cases x; cases y; cases z) (auto simp: less_eq_double_def dcls_def dval_def)
  show "x \<le> y \<Longrightarrow> y \<le> x \<Longrightarrow> x = y"
    by (cases x; cases y) (auto simp: less_eq_double_def dcls_def dval_def)
  show "x \<le> y \<or> y \<le> x"
    by (cases x; cases y) (auto simp: less_eq_double_def dcls_def dval_def)
qed

end

text \<open>
  The values a distance or a weight of the path solver takes: a number that is not
  negative, or \<open>+infinity\<close>; \<open>dgood\<close> when the number is a double.
\<close>

fun nonneg :: "double \<Rightarrow> bool" where
  "nonneg (Fin c) = (0 \<le> c)"
| "nonneg PInf = True"
| "nonneg _ = False"

fun dgood :: "double \<Rightarrow> bool" where
  "dgood (Fin c) = (0 \<le> c \<and> fl c = Fin c)"
| "dgood PInf = True"
| "dgood _ = False"

section \<open>The routing engine\<close>

subsection \<open>Positions and the node container\<close>

text \<open>
  An ns-3 \<open>Vector\<close> of three doubles. Of a node the routing core reads only its mobility
  model, which may be absent (\<open>GetObject<MobilityModel>()\<close> returns a null pointer), and
  of the model only the position: a node is its position, if it has one. The
  \<open>NodeContainer\<close> is the list of its nodes; \<open>GetN\<close> returns the size as \<open>uint32_t\<close>.
\<close>

datatype Vector = Vector (vec_x: double) (vec_y: double) (vec_z: double)

type_synonym NodeContainer = "Vector option list"

definition GetN :: "NodeContainer \<Rightarrow> uint32_t" where
  "GetN nodes = of_nat (length nodes)"

definition Get :: "NodeContainer \<Rightarrow> uint32_t \<Rightarrow> Vector option" where
  "Get nodes i = nodes ! unat i"

text \<open>
  The distance computed in \<open>BuildGraph\<close> and in the callbacks (lines 229-232), each
  operation rounded to a double.
\<close>

definition distance :: "Vector \<Rightarrow> Vector \<Rightarrow> double" where
  "distance pos1 pos2 =
    (let dx = dsub (vec_x pos1) (vec_x pos2);
         dy = dsub (vec_y pos1) (vec_y pos2);
         dz = dsub (vec_z pos1) (vec_z pos2)
     in dsqrt (dadd (dadd (dmul dx dx) (dmul dy dy)) (dmul dz dz)))"

subsection \<open>\<open>class RoutingEngine\<close> (lines 196-372)\<close>

text \<open>
  \<open>m_graph\<close> is a \<open>std::map\<close> from a node to the \<open>std::set\<close> of its neighbours, \<open>m_weights\<close>
  a \<open>std::map\<close> from an ordered pair to a double. Both maps are association lists with
  distinct keys, a set is the ascending list of its elements (\<open>insort_insert\<close> is the
  \<open>insert\<close> of \<open>std::set\<close>). The path solver inserts the keys of \<open>m_graph\<close> into a \<open>std::set\<close>
  before it iterates over them, so the order of the map itself is not observable.
\<close>

record RoutingEngine =
  m_graph :: "(uint32_t \<times> uint32_t list) list"
  m_weights :: "((uint32_t \<times> uint32_t) \<times> double) list"
  m_alpha :: double
  m_beta :: double
  m_useBlockchain :: bool

definition RoutingEngine_new :: "double \<Rightarrow> double \<Rightarrow> RoutingEngine" where
  "RoutingEngine_new alpha beta =
     \<lparr>m_graph = [], m_weights = [], m_alpha = alpha, m_beta = beta, m_useBlockchain = True\<rparr>"

definition SetUseBlockchain :: "bool \<Rightarrow> RoutingEngine \<Rightarrow> RoutingEngine" where
  "SetUseBlockchain useBlockchain E = E\<lparr>m_useBlockchain := useBlockchain\<rparr>"

text \<open>\<open>m_graph[i].insert(j)\<close>: \<open>operator[]\<close> creates the empty set for a new key.\<close>

definition graph_insert ::
  "uint32_t \<Rightarrow> uint32_t \<Rightarrow> (uint32_t \<times> uint32_t list) list \<Rightarrow> (uint32_t \<times> uint32_t list) list" where
  "graph_insert i j g =
     AList.update i (insort_insert j (case map_of g i of None \<Rightarrow> [] | Some s \<Rightarrow> s)) g"

text \<open>
  Lines 246-280: the weight of the edge between \<open>i\<close> and \<open>j\<close>, from the ledger and the
  mode of the engine. The ledger of this development holds real numbers; the engine
  reads the double nearest to the number (the number itself, when it is a double).
  The literal \<open>0.3\<close> is the double nearest to 3/10.
\<close>

definition edge_cost ::
  "RoutingEngine \<Rightarrow> BlockchainLedger \<Rightarrow> double \<Rightarrow> uint32_t \<Rightarrow> uint32_t \<Rightarrow> double" where
  "edge_cost E ledger defaultSnr i j =
    (let trust0 = fl (GetTrust ledger i j);
         snr0 = fl (GetSnr ledger i j);
         snr = (if dle snr0 (Fin 0) then defaultSnr else snr0);
         trust1 = (if dle trust0 (Fin 0) then Fin 1 else trust0);
         trust = (if dless trust1 (fl 0.3) then fl 0.3 else trust1)
     in if m_useBlockchain E then dadd (ddiv (m_alpha E) snr) (ddiv (m_beta E) trust) else Fin 1)"

text \<open>The body of the two loops of \<open>BuildGraph\<close> (lines 219-285), for one pair \<open>i < j\<close>.\<close>

definition BuildGraph_pair ::
  "NodeContainer \<Rightarrow> BlockchainLedger \<Rightarrow> double \<Rightarrow> double \<Rightarrow> uint32_t \<Rightarrow> uint32_t \<Rightarrow>
   RoutingEngine \<Rightarrow> RoutingEngine" where
  "BuildGraph_pair nodes ledger maxRange defaultSnr i j E =
    (case (Get nodes i, Get nodes j) of
       (Some pos1, Some pos2) \<Rightarrow>
         if dless (distance pos1 pos2) maxRange then
           (let cost = edge_cost E ledger defaultSnr i j
            in E\<lparr>m_graph := graph_insert j i (graph_insert i j (m_graph E)),
                 m_weights := AList.update (j, i) cost (AList.update (i, j) cost (m_weights E))\<rparr>)
         else E
     | _ \<Rightarrow> E)"

text \<open>
  \<open>BuildGraph\<close> (lines 209-287). The parameter \<open>blackholeNodes\<close> is the ground-truth set
  the heartbeat passes in; the body never reads it.
\<close>

definition BuildGraph ::
  "NodeContainer \<Rightarrow> BlockchainLedger \<Rightarrow> double \<Rightarrow> uint32_t set \<Rightarrow> double \<Rightarrow>
   RoutingEngine \<Rightarrow> RoutingEngine" where
  "BuildGraph nodes ledger maxRange blackholeNodes defaultSnr E =
    (let numNodes = unat (GetN nodes)
     in fold (\<lambda>i. fold (\<lambda>j. BuildGraph_pair nodes ledger maxRange defaultSnr (of_nat i) (of_nat j))
                     [Suc i ..< numNodes])
          [0 ..< numNodes]
          (E\<lparr>m_graph := [], m_weights := []\<rparr>))"

subsection \<open>\<open>CalculatePath\<close> (lines 292-364)\<close>

text \<open>
  The maps \<open>dist\<close> and \<open>prev\<close> are read and written through \<open>operator[]\<close> only, which
  gives a missing key the value-initialised entry: each is a total function, with
  \<open>0.0\<close> and \<open>0\<close> for the keys never written (\<open>dist\<close> is a constant of HOL: the map
  is \<open>dist_m\<close> here). \<open>unvisited\<close> is a \<open>std::set\<close>.
\<close>

type_synonym dijkstra_state = "(uint32_t \<Rightarrow> double) \<times> (uint32_t \<Rightarrow> uint32_t) \<times> uint32_t list"

text \<open>Lines 306-312: the initialisation loop over the keys of \<open>m_graph\<close>.\<close>

fun dijkstra_init :: "uint32_t list \<Rightarrow> dijkstra_state \<Rightarrow> dijkstra_state" where
  "dijkstra_init [] st = st"
| "dijkstra_init (k # ks) (dist_m, prev, unvisited) =
     dijkstra_init ks (dist_m(k := PInf), prev(k := UINT32_MAX), insort_insert k unvisited)"

text \<open>Lines 316-323: the unvisited node of minimum distance, the first one on a tie.\<close>

fun find_min :: "(uint32_t \<Rightarrow> double) \<Rightarrow> uint32_t list \<Rightarrow> uint32_t \<times> double \<Rightarrow> uint32_t \<times> double" where
  "find_min dist_m [] (u, minDist) = (u, minDist)"
| "find_min dist_m (node # rest) (u, minDist) =
     (if dless (dist_m node) minDist then find_min dist_m rest (node, dist_m node)
      else find_min dist_m rest (u, minDist))"

definition edge_weight :: "RoutingEngine \<Rightarrow> uint32_t \<Rightarrow> uint32_t \<Rightarrow> double" where
  "edge_weight E u v = (case map_of (m_weights E) (u, v) of Some w \<Rightarrow> w | None \<Rightarrow> PInf)"

text \<open>
  Lines 337-349: the loop over the neighbours of \<open>u\<close>. The sum \<open>dist[u] + weight\<close> is
  rounded to a double, and is \<open>+infinity\<close> when it overflows.
\<close>

fun relax ::
  "RoutingEngine \<Rightarrow> uint32_t \<Rightarrow> uint32_t list \<Rightarrow> uint32_t list \<Rightarrow>
   (uint32_t \<Rightarrow> double) \<times> (uint32_t \<Rightarrow> uint32_t) \<Rightarrow> (uint32_t \<Rightarrow> double) \<times> (uint32_t \<Rightarrow> uint32_t)" where
  "relax E u [] unvisited (dist_m, prev) = (dist_m, prev)"
| "relax E u (v # vs) unvisited (dist_m, prev) =
     (if v \<in> set unvisited then
        (let weight = edge_weight E u v;
             alt = dadd (dist_m u) weight
         in if dless alt (dist_m v) then relax E u vs unvisited (dist_m(v := alt), prev(v := u))
            else relax E u vs unvisited (dist_m, prev))
      else relax E u vs unvisited (dist_m, prev))"

lemma find_min_cases:
  "find_min dist_m xs (u, m) = (u', m') \<Longrightarrow>
     (u' = u \<and> m' = m) \<or> (u' \<in> set xs \<and> m' = dist_m u')"
proof (induction xs arbitrary: u m)
  case Nil
  then show ?case by simp
next
  case (Cons a xs)
  show ?case
  proof (cases "dless (dist_m a) m")
    case True
    with Cons.prems have "find_min dist_m xs (a, dist_m a) = (u', m')" by simp
    from Cons.IH[OF this] True show ?thesis by auto
  next
    case False
    with Cons.prems have "find_min dist_m xs (u, m) = (u', m')" by simp
    from Cons.IH[OF this] show ?thesis by auto
  qed
qed

text \<open>Lines 314-351: the main loop; a \<open>break\<close> returns the state as it is.\<close>

function dijkstra_loop :: "RoutingEngine \<Rightarrow> uint32_t \<Rightarrow> dijkstra_state \<Rightarrow> dijkstra_state" where
  "dijkstra_loop E dest (dist_m, prev, unvisited) =
    (if unvisited = [] then (dist_m, prev, unvisited)
     else
       (let (u, minDist) = find_min dist_m unvisited (UINT32_MAX, PInf)
        in if u = UINT32_MAX \<or> minDist = PInf then (dist_m, prev, unvisited)
           else if u = dest then (dist_m, prev, unvisited)
           else
             (let unvisited' = removeAll u unvisited;
                  (dist_m', prev') =
                     (case map_of (m_graph E) u of
                        Some nbrs \<Rightarrow> relax E u nbrs unvisited' (dist_m, prev)
                      | None \<Rightarrow> (dist_m, prev))
              in dijkstra_loop E dest (dist_m', prev', unvisited'))))"
  by pat_completeness auto
termination
proof (relation "measure (\<lambda>(E, dest, dist_m, prev, unvisited). length unvisited)", goal_cases)
  case 1
  show ?case by simp
next
  case (2 E dest dist_m prev unvisited x u minDist unvisited' y dist_m' prev')
  from 2(2,3) have "find_min dist_m unvisited (UINT32_MAX, PInf) = (u, minDist)" by simp
  from find_min_cases[OF this] 2(4) have "u \<in> set unvisited" by auto
  then have "length (removeAll u unvisited) < length unvisited"
    by (simp add: length_removeAll_less)
  with 2 show ?case by simp
qed

declare dijkstra_loop.simps [simp del]

text \<open>
  Lines 355-359: the loop that follows \<open>prev\<close> from the destination. Nothing in the
  loop bounds it: on a cyclic \<open>prev\<close> it does not return, which is the value \<open>None\<close>.
\<close>

partial_function (option) reconstruct ::
  "(uint32_t \<Rightarrow> uint32_t) \<Rightarrow> uint32_t \<Rightarrow> uint32_t list \<Rightarrow> uint32_t list option" where
  "reconstruct prev current path =
     (if current = UINT32_MAX then Some path
      else reconstruct prev (prev current) (path @ [current]))"

definition CalculatePath :: "RoutingEngine \<Rightarrow> uint32_t \<Rightarrow> uint32_t \<Rightarrow> uint32_t list option" where
  "CalculatePath E source dest =
    (if map_of (m_graph E) source = None \<or> map_of (m_graph E) dest = None then Some []
     else
       (let (dist_m0, prev0, unvisited0) =
               dijkstra_init (map fst (m_graph E)) (\<lambda>_. Fin 0, \<lambda>_. 0, []);
            (dist_m, prev, unvisited) = dijkstra_loop E dest (dist_m0(source := Fin 0), prev0, unvisited0)
        in if dist_m dest \<noteq> PInf then map_option rev (reconstruct prev dest []) else Some []))"

subsection \<open>Vocabulary for the routing properties\<close>

text \<open>The nodes and the edges of the graph an engine holds.\<close>

definition graph_nodes :: "RoutingEngine \<Rightarrow> uint32_t set" where
  "graph_nodes E = fst ` set (m_graph E)"

definition neighbours :: "RoutingEngine \<Rightarrow> uint32_t \<Rightarrow> uint32_t set" where
  "neighbours E u = (case map_of (m_graph E) u of None \<Rightarrow> {} | Some nbrs \<Rightarrow> set nbrs)"

text \<open>
  A route from \<open>s\<close> to \<open>d\<close>: a non-empty node sequence \<open>[s, ..., d]\<close> of nodes of the graph,
  each the neighbour of the one before. Its cost is the sum of the weights of its edges
  as the solver accumulates it: from the source on, each sum rounded to a double, a
  missing weight counting as \<open>+infinity\<close>.
\<close>

fun is_walk :: "RoutingEngine \<Rightarrow> uint32_t list \<Rightarrow> bool" where
  "is_walk E [] = False"
| "is_walk E [v] = (v \<in> graph_nodes E)"
| "is_walk E (u # v # rest) = (v \<in> neighbours E u \<and> is_walk E (v # rest))"

definition is_route :: "RoutingEngine \<Rightarrow> uint32_t \<Rightarrow> uint32_t \<Rightarrow> uint32_t list \<Rightarrow> bool" where
  "is_route E s d p = (is_walk E p \<and> hd p = s \<and> last p = d)"

fun cost_from :: "RoutingEngine \<Rightarrow> double \<Rightarrow> uint32_t list \<Rightarrow> double" where
  "cost_from E c (u # v # rest) = cost_from E (dadd c (edge_weight E u v)) (v # rest)"
| "cost_from E c [v] = c"
| "cost_from E c [] = c"

definition route_cost :: "RoutingEngine \<Rightarrow> uint32_t list \<Rightarrow> double" where
  "route_cost E p = cost_from E (Fin 0) p"

text \<open>
  What the solver relies on: the sentinel \<open>UINT32_MAX\<close> is no node, every neighbour is a
  node, and every weight is a number that is not negative, or \<open>+infinity\<close>.
\<close>

definition wf_graph :: "RoutingEngine \<Rightarrow> bool" where
  "wf_graph E =
     (UINT32_MAX \<notin> graph_nodes E \<and>
      (\<forall>u. \<forall>v \<in> neighbours E u. v \<in> graph_nodes E) \<and>
      (\<forall>u v. nonneg (edge_weight E u v)))"

text \<open>The sequence \<open>p\<close> ends in \<open>v\<close> and follows \<open>prev\<close> backwards to a node whose \<open>prev\<close> is the sentinel.\<close>

inductive chain :: "(uint32_t \<Rightarrow> uint32_t) \<Rightarrow> uint32_t \<Rightarrow> uint32_t list \<Rightarrow> bool"
  for prev :: "uint32_t \<Rightarrow> uint32_t" where
  chain_start: "v \<noteq> UINT32_MAX \<Longrightarrow> prev v = UINT32_MAX \<Longrightarrow> chain prev v [v]"
| chain_step: "v \<noteq> UINT32_MAX \<Longrightarrow> chain prev (prev v) p \<Longrightarrow> chain prev v (p @ [v])"

code_pred chain .

text \<open>The invariant of the main loop, for the source \<open>s\<close>.\<close>

definition dijkstra_inv :: "RoutingEngine \<Rightarrow> uint32_t \<Rightarrow> dijkstra_state \<Rightarrow> bool" where
  "dijkstra_inv E s st =
    (case st of (dm, prev, unv) \<Rightarrow>
       set unv \<subseteq> graph_nodes E \<and> s \<in> graph_nodes E \<and> dm s = Fin 0 \<and>
       (\<forall>v \<in> graph_nodes E. dm v \<noteq> PInf \<longrightarrow>
          (\<exists>p. chain prev v p \<and> is_route E s v p \<and> route_cost E p = dm v \<and>
               set (butlast p) \<subseteq> graph_nodes E - set unv)) \<and>
       (\<forall>v \<in> graph_nodes E - set unv.
          dm v \<noteq> PInf \<and> (\<forall>q. is_route E s v q \<longrightarrow> dm v \<le> route_cost E q)) \<and>
       (\<forall>u \<in> graph_nodes E - set unv. \<forall>v \<in> neighbours E u \<inter> set unv.
          dm v \<le> dadd (dm u) (edge_weight E u v)))"

text \<open>
  How the loop can end: every unvisited node is at distance \<open>+infinity\<close>, or the
  destination is the nearest unvisited node.
\<close>

definition dijkstra_exit :: "uint32_t \<Rightarrow> dijkstra_state \<Rightarrow> bool" where
  "dijkstra_exit dest st =
    (case st of (dm, prev, unv) \<Rightarrow>
       (\<forall>v \<in> set unv. dm v = PInf) \<or>
       (dest \<in> set unv \<and> dm dest \<noteq> PInf \<and> (\<forall>v \<in> set unv. dm dest \<le> dm v)))"

subsection \<open>Vocabulary for the graph \<open>BuildGraph\<close> builds\<close>

text \<open>
  Two nodes are linked when both have a mobility model and their distance, as
  \<open>BuildGraph\<close> computes it, is below the range: the test of lines 223 and 235.
\<close>

definition linked :: "NodeContainer \<Rightarrow> double \<Rightarrow> uint32_t \<Rightarrow> uint32_t \<Rightarrow> bool" where
  "linked nodes maxRange a b =
     (case (Get nodes a, Get nodes b) of
        (Some pos1, Some pos2) \<Rightarrow> dless (distance pos1 pos2) maxRange
      | _ \<Rightarrow> False)"


text \<open>
  The pairs \<open>i < j < n\<close> in the order the two loops of \<open>BuildGraph\<close> visit them, and the
  body of the loops run over a list of pairs.
\<close>

definition nat_pairs :: "nat \<Rightarrow> (nat \<times> nat) list" where
  "nat_pairs n = concat (map (\<lambda>i. map (Pair i) [Suc i ..< n]) [0 ..< n])"

definition build_fold ::
  "NodeContainer \<Rightarrow> BlockchainLedger \<Rightarrow> double \<Rightarrow> double \<Rightarrow> (nat \<times> nat) list \<Rightarrow> RoutingEngine \<Rightarrow> RoutingEngine" where
  "build_fold nodes L r ds ps E =
     fold (\<lambda>(i, j). BuildGraph_pair nodes L r ds (of_nat i) (of_nat j)) ps E"


text \<open>The engine holds a weight for the edges only, and it is the cost of the pair.\<close>

definition weights_ok :: "BlockchainLedger \<Rightarrow> double \<Rightarrow> RoutingEngine \<Rightarrow> bool" where
  "weights_ok L ds E =
     (\<forall>u v. edge_weight E u v = (if v \<in> neighbours E u then edge_cost E L ds u v else PInf))"



subsection \<open>Two scenarios\<close>


definition nodes4 :: NodeContainer where
  "nodes4 = [Some (Vector (Fin 0) (Fin 0) (Fin 0)), Some (Vector (Fin 30) (Fin 40) (Fin 0)),
             Some (Vector (Fin 30) (Fin (- 40)) (Fin 0)), Some (Vector (Fin 60) (Fin 0) (Fin 0))]"


definition Lt :: BlockchainLedger where
  "Lt = \<lparr>m_ledger = [((0, 1), \<lparr>movingAvgSnr = 4203, drops = 0, trust = 1\<rparr>),
                 ((1, 3), \<lparr>movingAvgSnr = 4209, drops = 0, trust = 1\<rparr>),
                 ((0, 2), \<lparr>movingAvgSnr = 4128, drops = 0, trust = 1\<rparr>),
                 ((2, 3), \<lparr>movingAvgSnr = 4287, drops = 0, trust = 1\<rparr>)],
      m_blackholes = {}, m_lossThreshold = 0.5, m_defaultTrust = 1.0, m_defaultSnr = 20.0\<rparr>"

definition Gt :: RoutingEngine where
  "Gt = \<lparr>m_graph = [(0, [1, 2]), (1, [0, 3]), (2, [0, 3]), (3, [1, 2])],
      m_weights =
        [((0, 1), Fin (1099512150979249 / 2199023255552)),
         ((1, 0), Fin (1099512150979249 / 2199023255552)),
         ((0, 2), Fin (549756080242561 / 1099511627776)),
         ((2, 0), Fin (549756080242561 / 1099511627776)),
         ((1, 3), Fin (549756075116707 / 1099511627776)),
         ((3, 1), Fin (549756075116707 / 1099511627776)),
         ((2, 3), Fin (8796097125820327 / 17592186044416)),
         ((3, 2), Fin (8796097125820327 / 17592186044416))],
      m_alpha = Fin 1, m_beta = Fin 500, m_useBlockchain = True\<rparr>"



section \<open>The evidence callbacks\<close>

subsection \<open>The simulation context (lines 378-393)\<close>

text \<open>
  Of \<open>struct SimulationContext\<close> the callbacks read the nodes, the address of each node
  (\<open>ipv4Interfaces.GetAddress\<close>), the flows, the ground-truth set \<open>blackholeNodes\<close> and the
  three parameters, and they write the ledger. An \<open>Ipv4Address\<close> is its 32 bits. The
  fields carry the prefix \<open>ctx_\<close>: their names are those of parameters elsewhere.
  \<open>defaultSnr\<close> enters the ledger and is, as the numbers of the ledger are, a real.
\<close>

type_synonym Ipv4Address = "32 word"

record SimulationContext =
  ctx_nodes :: NodeContainer
  ctx_ipv4Interfaces :: "uint32_t \<Rightarrow> Ipv4Address"
  ctx_ledger :: BlockchainLedger
  ctx_routingEngine :: RoutingEngine
  ctx_activeFlows :: "(uint32_t \<times> uint32_t) list"
  ctx_blackholeNodes :: "uint32_t set"
  ctx_maxRadioRange :: double
  ctx_defaultSnr :: real
  ctx_useBlockchain :: bool

subsection \<open>Parsing the trace context (lines 403-418)\<close>

text \<open>
  The functions of \<open>std::string\<close> the parser calls. \<open>find\<close> returns the first position at or
  after \<open>pos\<close> where the pattern starts, \<open>npos\<close> (here \<open>None\<close>) when there is none;
  \<open>substr (pos, n)\<close> is \<open>take n (drop pos s)\<close>.
\<close>

fun find_aux :: "string \<Rightarrow> string \<Rightarrow> nat \<Rightarrow> nat option" where
  "find_aux pat [] i = (if pat = [] then Some i else None)"
| "find_aux pat (c # cs) i =
     (if take (length pat) (c # cs) = pat then Some i else find_aux pat cs (Suc i))"

definition str_find :: "string \<Rightarrow> string \<Rightarrow> nat \<Rightarrow> nat option" where
  "str_find s pat pos = (if pos > length s then None else find_aux pat (drop pos s) pos)"

text \<open>
  \<open>std::stoul\<close> with base 10, as the C++ standard defines it through \<open>strtoul\<close>: leading
  white space is skipped, a sign is accepted, the longest run of digits is converted;
  with no digit it throws \<open>std::invalid_argument\<close>, with a value beyond \<open>unsigned long\<close>
  (64 bits on the platforms ns-3 runs on) \<open>std::out_of_range\<close>; a minus sign negates the
  value in unsigned arithmetic.
\<close>

datatype exn = invalid_argument | out_of_range | undefined_behaviour

definition isspace :: "char \<Rightarrow> bool" where
  "isspace c = (c \<in> set [CHR '' '', CHR 0x09, CHR 0x0A, CHR 0x0B, CHR 0x0C, CHR 0x0D])"

definition isdigit :: "char \<Rightarrow> bool" where
  "isdigit c = (c \<in> set ''0123456789'')"

definition digit_value :: "char \<Rightarrow> nat" where
  "digit_value c = of_char c - of_char CHR ''0''"

definition decimal :: "string \<Rightarrow> nat" where
  "decimal ds = foldl (\<lambda>v c. 10 * v + digit_value c) 0 ds"

definition stoul :: "string \<Rightarrow> exn + uint64_t" where
  "stoul str =
    (let s1 = dropWhile isspace str;
         neg = (s1 \<noteq> [] \<and> hd s1 = CHR ''-'');
         s2 = (if s1 \<noteq> [] \<and> (hd s1 = CHR ''-'' \<or> hd s1 = CHR ''+'') then tl s1 else s1);
         ds = takeWhile isdigit s2
     in if ds = [] then Inl invalid_argument
        else if decimal ds > 18446744073709551615 then Inl out_of_range
        else Inr (if neg then - of_nat (decimal ds) else of_nat (decimal ds)))"

definition ParseNodeIdFromContext :: "string \<Rightarrow> exn + uint32_t" where
  "ParseNodeIdFromContext context =
    (case str_find context ''/NodeList/'' 0 of
       None \<Rightarrow> Inr UINT32_MAX
     | Some nodeListPos \<Rightarrow>
         (let startPos = nodeListPos + 10
          in case str_find context ''/'' startPos of
               None \<Rightarrow> Inr UINT32_MAX
             | Some endPos \<Rightarrow>
                 (let nodeIdStr = take (endPos - startPos) (drop startPos context)
                  in case stoul nodeIdStr of
                       Inl e \<Rightarrow> Inl e
                     | Inr v \<Rightarrow> Inr (ucast v))))"

subsection \<open>The three callbacks (lines 424-675)\<close>

text \<open>
  A callback takes the context string and the state (the simulation context and the
  counters) and returns the new state, or the exception that leaves it. The packet, the
  drop reason and the other arguments are used for logging only. \<open>NodeContainer::Get\<close>
  indexes a vector: beyond its size the behaviour is undefined.
\<close>

type_synonym sim_state = "SimulationContext \<times> counters"

text \<open>Lines 432-438: the source of the first flow that ends in the receiving node.\<close>

fun flow_source :: "(uint32_t \<times> uint32_t) list \<Rightarrow> uint32_t \<Rightarrow> uint32_t" where
  "flow_source [] receivingNodeId = UINT32_MAX"
| "flow_source (flow # flows) receivingNodeId =
     (if snd flow = receivingNodeId then fst flow else flow_source flows receivingNodeId)"

definition update_ledger ::
  "uint32_t \<Rightarrow> uint32_t \<Rightarrow> real \<Rightarrow> bool \<Rightarrow> sim_state \<Rightarrow> sim_state" where
  "update_ledger src dst snr isDrop st =
    (let (ctx, G) = st;
         (L, G') = UpdateMetric src dst snr isDrop (ctx_useBlockchain ctx) (ctx_ledger ctx, G)
     in (ctx\<lparr>ctx_ledger := L\<rparr>, G'))"

text \<open>
  Lines 453-454 and 475-476: the SNR estimated from the distance, in double arithmetic.
  With \<open>defaultSnr\<close> a finite double the estimate is a finite double or a NaN. The ledger
  takes the number the estimate is; a NaN fails the test \<open>snr > 0.0\<close> of \<open>UpdateMetric\<close>,
  as the \<open>0.0\<close> does that \<open>dval\<close> gives for it.
\<close>

definition estimate_snr :: "real \<Rightarrow> double \<Rightarrow> real" where
  "estimate_snr dsnr d =
     (let estimatedSnr = dsub (fl dsnr) (ddiv d (Fin 10))
      in dval (if dless estimatedSnr (Fin 5) then Fin 5 else estimatedSnr))"

text \<open>Lines 460-481: a reception credited to every node in range of the receiver.\<close>

definition rx_fanout :: "uint32_t \<Rightarrow> sim_state \<Rightarrow> sim_state" where
  "rx_fanout receivingNodeId st =
    fold (\<lambda>n st.
            (let i = of_nat n; ctx = fst st
             in if i \<noteq> receivingNodeId then
                  (case (Get (ctx_nodes ctx) i, Get (ctx_nodes ctx) receivingNodeId) of
                     (Some pos1, Some pos2) \<Rightarrow>
                       if dless (distance pos1 pos2) (ctx_maxRadioRange ctx)
                       then update_ledger i receivingNodeId
                              (estimate_snr (ctx_defaultSnr ctx) (distance pos1 pos2)) False st
                       else st
                   | _ \<Rightarrow> st)
                else st))
         [0 ..< unat (GetN (ctx_nodes (fst st)))] st"

text \<open>Lines 573-590 and 656-673: a drop charged to every node in range of the receiver.\<close>

definition drop_fanout :: "uint32_t \<Rightarrow> sim_state \<Rightarrow> sim_state" where
  "drop_fanout receivingNodeId st =
    fold (\<lambda>n st.
            (let i = of_nat n; ctx = fst st
             in if i \<noteq> receivingNodeId then
                  (case (Get (ctx_nodes ctx) i, Get (ctx_nodes ctx) receivingNodeId) of
                     (Some pos1, Some pos2) \<Rightarrow>
                       if dless (distance pos1 pos2) (ctx_maxRadioRange ctx)
                       then update_ledger i receivingNodeId 0.0 True st
                       else st
                   | _ \<Rightarrow> st)
                else st))
         [0 ..< unat (GetN (ctx_nodes (fst st)))] st"

definition PhyRxEndCallback :: "string \<Rightarrow> sim_state \<Rightarrow> exn + sim_state" where
  "PhyRxEndCallback context st =
    (case ParseNodeIdFromContext context of
       Inl e \<Rightarrow> Inl e
     | Inr receivingNodeId \<Rightarrow>
         (let ctx = fst st
          in if receivingNodeId = UINT32_MAX \<or> receivingNodeId \<ge> GetN (ctx_nodes ctx) then Inr st
             else
               (let sourceNodeId = flow_source (ctx_activeFlows ctx) receivingNodeId
                in if sourceNodeId \<noteq> UINT32_MAX then
                     (if sourceNodeId \<ge> GetN (ctx_nodes ctx) then Inl undefined_behaviour
                      else
                        (let estimatedSnr =
                               (case (Get (ctx_nodes ctx) sourceNodeId, Get (ctx_nodes ctx) receivingNodeId) of
                                  (Some pos1, Some pos2) \<Rightarrow>
                                     estimate_snr (ctx_defaultSnr ctx) (distance pos1 pos2)
                                | _ \<Rightarrow> ctx_defaultSnr ctx)
                         in Inr (update_ledger sourceNodeId receivingNodeId estimatedSnr False st)))
                   else Inr (rx_fanout receivingNodeId st))))"

text \<open>Lines 557-566: the node whose address is the source address of the header.\<close>

fun address_owner :: "(uint32_t \<Rightarrow> Ipv4Address) \<Rightarrow> Ipv4Address \<Rightarrow> nat list \<Rightarrow> uint32_t" where
  "address_owner addr srcAddr [] = UINT32_MAX"
| "address_owner addr srcAddr (n # ns) =
     (if addr (of_nat n) = srcAddr then of_nat n else address_owner addr srcAddr ns)"

definition Ipv4L3DropCallback :: "string \<Rightarrow> Ipv4Address \<Rightarrow> sim_state \<Rightarrow> exn + sim_state" where
  "Ipv4L3DropCallback context srcAddr st =
    (case ParseNodeIdFromContext context of
       Inl e \<Rightarrow> Inl e
     | Inr receivingNodeId \<Rightarrow>
         (let (ctx, G) = st
          in if receivingNodeId = UINT32_MAX \<or> receivingNodeId \<ge> GetN (ctx_nodes ctx) then Inr st
             else
               (let G1 = G\<lparr>g_l3Drops := g_l3Drops G + 1\<rparr>;
                    isExplicitBlackhole = (receivingNodeId \<in> ctx_blackholeNodes ctx);
                    G2 = (if isExplicitBlackhole
                          then G1\<lparr>g_maliciousDrops := g_maliciousDrops G1 + 1,
                                  g_blackholeL3Drops := g_blackholeL3Drops G1 + 1\<rparr>
                          else G1);
                    isDetectedBlackhole = IsBlackhole (ctx_ledger ctx) receivingNodeId;
                    sourceNodeId = address_owner (ctx_ipv4Interfaces ctx) srcAddr
                                     [0 ..< unat (GetN (ctx_nodes ctx))]
                in if sourceNodeId \<noteq> UINT32_MAX
                   then Inr (update_ledger sourceNodeId receivingNodeId 0.0 True (ctx, G2))
                   else Inr (drop_fanout receivingNodeId (ctx, G2)))))"

definition PhyRxDropCallback :: "string \<Rightarrow> sim_state \<Rightarrow> exn + sim_state" where
  "PhyRxDropCallback context st =
    (case ParseNodeIdFromContext context of
       Inl e \<Rightarrow> Inl e
     | Inr receivingNodeId \<Rightarrow>
         (let (ctx, G) = st
          in if receivingNodeId = UINT32_MAX \<or> receivingNodeId \<ge> GetN (ctx_nodes ctx) then Inr st
             else
               (let G1 = G\<lparr>g_phyDrops := g_phyDrops G + 1\<rparr>;
                    sourceNodeId = flow_source (ctx_activeFlows ctx) receivingNodeId
                in if sourceNodeId \<noteq> UINT32_MAX
                   then Inr (update_ledger sourceNodeId receivingNodeId 0.0 True (ctx, G1))
                   else Inr (drop_fanout receivingNodeId (ctx, G1)))))"

section \<open>The link ledger\<close>

subsection \<open>The trust invariant\<close>

lemma set_update_cases:
  "(k', m') \<in> set (AList.update k v al) \<Longrightarrow> (k', m') \<in> set al \<or> (k' = k \<and> m' = v)"
  by (induction al) (auto split: if_splits)

lemma UpdateMetric_entry:
  assumes "(k, m) \<in> set (m_ledger (fst (UpdateMetric src dst snr isDrop ub (L, G))))"
  shows "(k, m) \<in> set (m_ledger L) \<or>
         (k = MakeKey src dst \<and>
          (\<exists>m0. (m0 = LinkMetric_new \<or> (k, m0) \<in> set (m_ledger L)) \<and>
             trust m = (if isDrop \<and> ub then max 0.3 (trust m0 * 0.5) else trust m0)))"
  using assms
  by (auto simp: UpdateMetric_def Let_def split: if_splits option.splits
      dest!: set_update_cases map_of_SomeD)

lemma UpdateMetric_trust_ok:
  assumes "\<forall>(k, m) \<in> set (m_ledger L). trust_ok m"
  shows "\<forall>(k, m) \<in> set (m_ledger (fst (UpdateMetric src dst snr isDrop ub (L, G)))). trust_ok m"
proof (clarify)
  fix a b m
  assume "((a, b), m) \<in> set (m_ledger (fst (UpdateMetric src dst snr isDrop ub (L, G))))"
  from UpdateMetric_entry[OF this] assms show "trust_ok m"
    by (auto simp: trust_ok_def LinkMetric_new_def)
qed

lemma run_calls_trust_ok:
  "\<forall>(k, m) \<in> set (m_ledger (fst s)). trust_ok m \<Longrightarrow>
   \<forall>(k, m) \<in> set (m_ledger (fst (run_calls cs s))). trust_ok m"
proof (induction cs arbitrary: s)
  case Nil then show ?case by simp
next
  case (Cons c cs)
  obtain L G where s: "s = (L, G)" by (cases s)
  have "\<forall>(k, m) \<in> set (m_ledger (fst (apply_call c s))). trust_ok m"
    unfolding apply_call_def s using UpdateMetric_trust_ok Cons.prems unfolding s by simp
  from Cons.IH[OF this] show ?case by simp
qed

lemma UpdateMetric_frame:
  "fst (UpdateMetric src dst snr isDrop ub (L, G)) =
   L\<lparr>m_ledger := m_ledger (fst (UpdateMetric src dst snr isDrop ub (L, G)))\<rparr>"
  by (simp add: UpdateMetric_def Let_def)

lemma run_calls_frame:
  "fst (run_calls cs s) = (fst s)\<lparr>m_ledger := m_ledger (fst (run_calls cs s))\<rparr>"
proof (induction cs arbitrary: s)
  case Nil then show ?case by simp
next
  case (Cons c cs)
  obtain L G where s: "s = (L, G)" by (cases s)
  have "fst (apply_call c s) = (fst s)\<lparr>m_ledger := m_ledger (fst (apply_call c s))\<rparr>"
    unfolding apply_call_def s using UpdateMetric_frame by simp
  with Cons.IH[of "apply_call c s"] show ?case
    by (metis (no_types, lifting) BlockchainLedger.surjective BlockchainLedger.update_convs(1) run_calls.simps(2))
qed

lemma run_calls_defaultTrust:
  "m_defaultTrust (fst (run_calls cs s)) = m_defaultTrust (fst s)"
  by (subst run_calls_frame) simp

lemma run_calls_defaultSnr:
  "m_defaultSnr (fst (run_calls cs s)) = m_defaultSnr (fst s)"
  by (subst run_calls_frame) simp

lemma reachable_GetTrust_bounds:
  "0.3 \<le> GetTrust (fst (run_calls cs (BlockchainLedger_new, G))) a b \<and>
   GetTrust (fst (run_calls cs (BlockchainLedger_new, G))) a b \<le> 1.0"
proof -
  let ?L = "fst (run_calls cs (BlockchainLedger_new, G))"
  have inv: "\<forall>(k, m) \<in> set (m_ledger ?L). trust_ok m"
    by (rule run_calls_trust_ok) (simp add: BlockchainLedger_new_def)
  have dt: "m_defaultTrust ?L = 1.0"
    by (simp add: run_calls_defaultTrust BlockchainLedger_new_def)
  have "trust_ok m" if "map_of (m_ledger ?L) (MakeKey a b) = Some m" for m
    using inv map_of_SomeD[OF that] by auto
  then show ?thesis
    using dt by (auto simp: GetTrust_def trust_ok_def split: option.splits)
qed

text \<open>
  C1 (trust bounds). After construction and after any sequence of \<open>UpdateMetric\<close> calls,
  whatever their arguments, every record of the ledger has \<open>0.3 \<le> trust \<le> 1.0\<close>, and so has
  the value \<open>GetTrust\<close> returns for any pair.
\<close>

theorem trust_bounds:
  "(\<forall>(k, m) \<in> set (m_ledger (fst (run_calls cs (BlockchainLedger_new, G)))).
      0.3 \<le> trust m \<and> trust m \<le> 1.0) \<and>
   0.3 \<le> GetTrust (fst (run_calls cs (BlockchainLedger_new, G))) a b \<and>
   GetTrust (fst (run_calls cs (BlockchainLedger_new, G))) a b \<le> 1.0"
proof -
  let ?L = "fst (run_calls cs (BlockchainLedger_new, G))"
  have "\<forall>(k, m) \<in> set (m_ledger ?L). trust_ok m"
    by (rule run_calls_trust_ok) (simp add: BlockchainLedger_new_def)
  then have "\<forall>(k, m) \<in> set (m_ledger ?L). 0.3 \<le> trust m \<and> trust m \<le> 1.0"
    by (auto simp: trust_ok_def)
  with reachable_GetTrust_bounds[of cs G a b] show ?thesis by blast
qed

theorem trust_bounds_witness:
  "(let L = fst (run_calls [\<lparr>u_src = 2, u_dst = 1, u_snr = 0, u_isDrop = True, u_useBlockchain = True\<rparr>,
                            \<lparr>u_src = 1, u_dst = 2, u_snr = 0, u_isDrop = True, u_useBlockchain = True\<rparr>]
                 (BlockchainLedger_new, counters_zero))
    in map (\<lambda>(k, m). (k, trust m)) (m_ledger L) = [((1, 2), 0.3)] \<and>
       0.3 \<le> GetTrust L 1 2 \<and> GetTrust L 1 2 \<le> 1.0)"
  using trust_bounds [of "[\<lparr>u_src = 2, u_dst = 1, u_snr = 0, u_isDrop = True, u_useBlockchain = True\<rparr>,
                            \<lparr>u_src = 1, u_dst = 2, u_snr = 0, u_isDrop = True, u_useBlockchain = True\<rparr>]"
                          counters_zero 1 2]
  by (simp add: apply_call_def UpdateMetric_def MakeKey_def BlockchainLedger_new_def
      LinkMetric_new_def Let_def)

subsection \<open>The decay of trust under drops\<close>

lemma MakeKey_commute: "MakeKey a b = MakeKey b a"
  by (simp add: MakeKey_def min.commute max.commute)

lemma stored_after_update:
  "map_of (m_ledger (fst (UpdateMetric a b snr d ub (L, G)))) (MakeKey a b) \<noteq> None"
  by (simp add: UpdateMetric_def Let_def update_conv')

lemma GetTrust_stored:
  "map_of (m_ledger L) (MakeKey a b) \<noteq> None \<Longrightarrow> GetTrust L a b = stored_trust L a b"
  by (auto simp: GetTrust_def stored_trust_def)

lemma penalty_step:
  assumes "is_penalty_on a b c"
  shows "stored_trust (fst (apply_call c s)) a b = max 0.3 (stored_trust (fst s) a b * 0.5)"
    and "map_of (m_ledger (fst (apply_call c s))) (MakeKey a b) \<noteq> None"
  using assms
  by (cases s; simp add: is_penalty_on_def apply_call_def stored_trust_def UpdateMetric_def Let_def
       update_conv' LinkMetric_new_def split: option.splits)+

lemma trace_floor:
  assumes "list_all (is_penalty_on a b) cs"
    and "map_of (m_ledger (fst s)) (MakeKey a b) \<noteq> None" and "stored_trust (fst s) a b = 0.3"
  shows "trust_trace a b cs s = replicate (Suc (length cs)) 0.3"
  using assms
proof (induction cs arbitrary: s)
  case Nil
  then show ?case by (simp add: GetTrust_stored)
next
  case (Cons c cs)
  have "stored_trust (fst (apply_call c s)) a b = 0.3"
    using penalty_step(1)[of a b c s] Cons.prems by simp
  moreover have "map_of (m_ledger (fst (apply_call c s))) (MakeKey a b) \<noteq> None"
    using penalty_step(2)[of a b c s] Cons.prems by simp
  ultimately have "trust_trace a b cs (apply_call c s) = replicate (Suc (length cs)) 0.3"
    using Cons.IH Cons.prems by simp
  then show ?case using Cons.prems by (simp add: GetTrust_stored)
qed

lemma GetTrust_one_stored: "GetTrust L a b = 1 \<Longrightarrow> stored_trust L a b = 1"
  by (auto simp: GetTrust_def stored_trust_def split: option.splits)

lemma trace_half:
  assumes "list_all (is_penalty_on a b) cs"
    and "map_of (m_ledger (fst s)) (MakeKey a b) \<noteq> None" and "stored_trust (fst s) a b = 0.5"
  shows "trust_trace a b cs s = 0.5 # replicate (length cs) 0.3"
proof (cases cs)
  case Nil
  then show ?thesis using assms by (simp add: GetTrust_stored)
next
  case (Cons c cs')
  have "stored_trust (fst (apply_call c s)) a b = 0.3"
    using penalty_step(1)[of a b c s] assms Cons by simp
  moreover have "map_of (m_ledger (fst (apply_call c s))) (MakeKey a b) \<noteq> None"
    using penalty_step(2)[of a b c s] assms Cons by simp
  ultimately have "trust_trace a b cs' (apply_call c s) = replicate (Suc (length cs')) 0.3"
    using trace_floor[of a b cs' "apply_call c s"] assms Cons by simp
  then show ?thesis using assms Cons by (simp add: GetTrust_stored)
qed

lemma sorted_wrt_ge_replicate: "sorted_wrt (\<ge>) (replicate n (x::real))"
  by (induction n) auto

lemma trace_one:
  assumes "list_all (is_penalty_on a b) cs" and "GetTrust (fst s) a b = 1"
  shows "trust_trace a b cs s = (if cs = [] then [1] else 1 # 0.5 # replicate (length cs - 1) 0.3)"
proof (cases cs)
  case Nil
  then show ?thesis using assms by simp
next
  case (Cons c cs')
  have "stored_trust (fst (apply_call c s)) a b = 0.5"
    using penalty_step(1)[of a b c s] assms Cons GetTrust_one_stored[OF assms(2)] by simp
  moreover have "map_of (m_ledger (fst (apply_call c s))) (MakeKey a b) \<noteq> None"
    using penalty_step(2)[of a b c s] assms Cons by simp
  ultimately have "trust_trace a b cs' (apply_call c s) = 0.5 # replicate (length cs') 0.3"
    using trace_half[of a b cs' "apply_call c s"] assms Cons by simp
  then show ?thesis using assms Cons by simp
qed

lemma last_trust_trace: "last (trust_trace a b cs s) = GetTrust (fst (run_calls cs s)) a b"
  by (induction cs arbitrary: s) (auto split: list.splits, (case_tac cs; simp)+)

text \<open>
  C2 (floor convergence and decay curve). On a link whose trust is 1.0, drop updates in
  Proposed mode (in either direction, with any SNR argument) make \<open>GetTrust\<close> return
  1.0, 0.5, 0.3, 0.3, ... in turn: the sequence is non-increasing, and from the second
  drop on (so after three or more) the trust is 0.3 exactly.
\<close>

theorem decay_curve:
  assumes "GetTrust (fst s) a b = 1.0" and "list_all (is_penalty_on a b) cs"
  shows "trust_trace a b cs s = (if cs = [] then [1.0] else 1.0 # 0.5 # replicate (length cs - 1) 0.3) \<and>
         sorted_wrt (\<ge>) (trust_trace a b cs s) \<and>
         (length cs \<ge> 2 \<longrightarrow> GetTrust (fst (run_calls cs s)) a b = 0.3)"
proof -
  have tr: "trust_trace a b cs s = (if cs = [] then [1.0] else 1.0 # 0.5 # replicate (length cs - 1) 0.3)"
    using trace_one[OF assms(2)] assms(1) by simp
  have so: "sorted_wrt (\<ge>) (trust_trace a b cs s)"
    unfolding tr by (simp add: sorted_wrt_ge_replicate)
  have "GetTrust (fst (run_calls cs s)) a b = 0.3" if "length cs \<ge> 2"
  proof -
    from that obtain n where n: "length cs - 1 = Suc n" by (cases "length cs - 1") auto
    from that have "cs \<noteq> []" by auto
    then have "last (trust_trace a b cs s) = last (replicate (Suc n) (0.3::real))"
      unfolding tr n by simp
    also have "\<dots> = 0.3" by (rule last_replicate) simp
    finally have "last (trust_trace a b cs s) = 0.3" .
    then show ?thesis by (simp add: last_trust_trace)
  qed
  with tr so show ?thesis by blast
qed

theorem decay_curve_witness:
  "trust_trace 4 7 (map (drop_call 4 7) [0, 0, 0, 0, 0]) (BlockchainLedger_new, counters_zero)
     = [1.0, 0.5, 0.3, 0.3, 0.3, 0.3] \<and>
   GetTrust (fst (run_calls (map (drop_call 4 7) [0, 0, 0, 0, 0]) (BlockchainLedger_new, counters_zero))) 4 7 = 0.3"
  using decay_curve [of "(BlockchainLedger_new, counters_zero)" 4 7 "map (drop_call 4 7) [0, 0, 0, 0, 0]"]
  by (simp add: GetTrust_def BlockchainLedger_new_def is_penalty_on_def drop_call_def)

subsection \<open>Baseline mode\<close>

lemma UpdateMetric_baseline_entry:
  assumes "(k, m) \<in> set (m_ledger (fst (UpdateMetric src dst snr isDrop False (L, G))))"
  shows "(k, m) \<in> set (m_ledger L) \<or>
          (\<exists>m0. (m0 = LinkMetric_new \<or> (k, m0) \<in> set (m_ledger L)) \<and> trust m = trust m0)"
  using UpdateMetric_entry[OF assms] by auto

lemma UpdateMetric_baseline_counters:
  "snd (UpdateMetric src dst snr isDrop False s) = snd s"
  by (cases s) (simp add: UpdateMetric_def Let_def)

lemma run_calls_baseline:
  assumes "list_all (\<lambda>c. \<not> u_useBlockchain c) cs"
    and "\<forall>(k, m) \<in> set (m_ledger (fst s)). trust m = 1"
  shows "(\<forall>(k, m) \<in> set (m_ledger (fst (run_calls cs s))). trust m = 1) \<and> snd (run_calls cs s) = snd s"
  using assms
proof (induction cs arbitrary: s)
  case Nil then show ?case by simp
next
  case (Cons c cs)
  obtain L G where s: "s = (L, G)" by (cases s)
  from Cons.prems have nb: "u_useBlockchain c = False" by simp
  have "\<forall>(k, m) \<in> set (m_ledger (fst (apply_call c s))). trust m = 1"
  proof clarify
    fix a b m assume "((a, b), m) \<in> set (m_ledger (fst (apply_call c s)))"
    then have "((a, b), m) \<in> set (m_ledger (fst (UpdateMetric (u_src c) (u_dst c) (u_snr c) (u_isDrop c) False (L, G))))"
      by (simp add: apply_call_def s nb)
    from UpdateMetric_baseline_entry[OF this] Cons.prems(2) show "trust m = 1"
      by (auto simp: s LinkMetric_new_def)
  qed
  moreover have "snd (apply_call c s) = snd s"
    by (simp add: apply_call_def nb UpdateMetric_baseline_counters)
  ultimately show ?case using Cons.IH[of "apply_call c s"] Cons.prems(1) by simp
qed

text \<open>
  C6 (baseline immutability of trust). After any sequence of \<open>UpdateMetric\<close> calls in
  Baseline mode (\<open>useBlockchain = false\<close>) every record has trust 1.0, \<open>GetTrust\<close> returns
  1.0 for every pair, and no counter has changed, \<open>g_trustPenalties\<close> among them. A drop
  update in this mode with \<open>snr \<le> 0\<close>, on any ledger, changes the one record of the link,
  and of it the field \<open>drops\<close> only (a record created by the call has the default fields
  and \<open>drops = 1\<close>).
\<close>

theorem baseline_immutability:
  assumes "list_all (\<lambda>c. \<not> u_useBlockchain c) cs" and "snr \<le> 0"
  shows "(\<forall>(k, m) \<in> set (m_ledger (fst (run_calls cs (BlockchainLedger_new, G)))). trust m = 1.0) \<and>
         GetTrust (fst (run_calls cs (BlockchainLedger_new, G))) a b = 1.0 \<and>
         snd (run_calls cs (BlockchainLedger_new, G)) = G \<and>
         UpdateMetric a b snr True False (L, G') =
           (L\<lparr>m_ledger := AList.update (MakeKey a b)
                 (case map_of (m_ledger L) (MakeKey a b) of
                    None \<Rightarrow> LinkMetric_new\<lparr>drops := 1\<rparr>
                  | Some m \<Rightarrow> m\<lparr>drops := drops m + 1\<rparr>) (m_ledger L)\<rparr>, G')"
proof -
  let ?L = "fst (run_calls cs (BlockchainLedger_new, G))"
  have inv: "(\<forall>(k, m) \<in> set (m_ledger ?L). trust m = 1) \<and> snd (run_calls cs (BlockchainLedger_new, G)) = G"
    using run_calls_baseline[OF assms(1), of "(BlockchainLedger_new, G)"]
    by (simp add: BlockchainLedger_new_def)
  have dt: "m_defaultTrust ?L = 1.0"
    by (simp add: run_calls_defaultTrust BlockchainLedger_new_def)
  have "trust m = 1" if "map_of (m_ledger ?L) (MakeKey a b) = Some m" for m
    using inv map_of_SomeD[OF that] by auto
  then have gt: "GetTrust ?L a b = 1.0"
    using dt by (auto simp: GetTrust_def split: option.splits)
  have step: "UpdateMetric a b snr True False (L, G') =
           (L\<lparr>m_ledger := AList.update (MakeKey a b)
                 (case map_of (m_ledger L) (MakeKey a b) of
                    None \<Rightarrow> LinkMetric_new\<lparr>drops := 1\<rparr>
                  | Some m \<Rightarrow> m\<lparr>drops := drops m + 1\<rparr>) (m_ledger L)\<rparr>, G')"
    using assms(2) by (simp add: UpdateMetric_def Let_def LinkMetric_new_def split: option.splits)
  from inv gt step show ?thesis by simp
qed

theorem baseline_immutability_witness:
  "(let cs = [\<lparr>u_src = 1, u_dst = 2, u_snr = 0, u_isDrop = True, u_useBlockchain = False\<rparr>,
              \<lparr>u_src = 2, u_dst = 1, u_snr = 0, u_isDrop = True, u_useBlockchain = False\<rparr>];
        s = run_calls cs (BlockchainLedger_new, counters_zero)
    in m_ledger (fst s) = [((1, 2), \<lparr>movingAvgSnr = 0, drops = 2, trust = 1\<rparr>)] \<and>
       GetTrust (fst s) 1 2 = 1.0 \<and> snd s = counters_zero)"
  using baseline_immutability [of "[\<lparr>u_src = 1, u_dst = 2, u_snr = 0, u_isDrop = True, u_useBlockchain = False\<rparr>,
              \<lparr>u_src = 2, u_dst = 1, u_snr = 0, u_isDrop = True, u_useBlockchain = False\<rparr>]" 0 counters_zero 1 2]
  by (simp add: apply_call_def UpdateMetric_def MakeKey_def BlockchainLedger_new_def
      LinkMetric_new_def Let_def)

subsection \<open>The moving average of the SNR\<close>

lemma stored_snr_step:
  "stored_snr (fst (apply_call c s)) a b =
     (if MakeKey (u_src c) (u_dst c) = MakeKey a b \<and> u_snr c > 0
      then 0.3 * u_snr c + 0.7 * stored_snr (fst s) a b else stored_snr (fst s) a b)"
  by (cases s) (auto simp: apply_call_def stored_snr_def UpdateMetric_def Let_def
       update_conv' LinkMetric_new_def split: option.splits)

lemma stored_snr_lower:
  "lo \<le> stored_snr (fst s) a b \<Longrightarrow> \<forall>x \<in> set (observed_snrs a b cs). lo \<le> x \<Longrightarrow>
   lo \<le> stored_snr (fst (run_calls cs s)) a b"
proof (induction cs arbitrary: s)
  case Nil then show ?case by simp
next
  case (Cons c cs)
  have "lo \<le> stored_snr (fst (apply_call c s)) a b"
    using Cons.prems by (auto simp: stored_snr_step observed_snrs_def)
  moreover have "\<forall>x \<in> set (observed_snrs a b cs). lo \<le> x"
    using Cons.prems(2) by (auto simp: observed_snrs_def)
  ultimately show ?case using Cons.IH by simp
qed

lemma stored_snr_upper:
  "stored_snr (fst s) a b \<le> hi \<Longrightarrow> \<forall>x \<in> set (observed_snrs a b cs). x \<le> hi \<Longrightarrow>
   stored_snr (fst (run_calls cs s)) a b \<le> hi"
proof (induction cs arbitrary: s)
  case Nil then show ?case by simp
next
  case (Cons c cs)
  have "stored_snr (fst (apply_call c s)) a b \<le> hi"
    using Cons.prems by (auto simp: stored_snr_step observed_snrs_def)
  moreover have "\<forall>x \<in> set (observed_snrs a b cs). x \<le> hi"
    using Cons.prems(2) by (auto simp: observed_snrs_def)
  ultimately show ?case using Cons.IH by simp
qed

text \<open>
  C7 (EMA bounds), as stated, fails: the average starts at 0.0, which is no observation.
  After the single observation 10 the average is 3, outside the hull \<open>[10, 10]\<close>.
\<close>

theorem ema_hull_counterexample:
  "map_of (m_ledger (fst (run_calls [\<lparr>u_src = 0, u_dst = 1, u_snr = 10, u_isDrop = False, u_useBlockchain = True\<rparr>]
        (BlockchainLedger_new, counters_zero)))) (MakeKey 0 1)
     = Some \<lparr>movingAvgSnr = 3, drops = 0, trust = 1\<rparr> \<and>
   observed_snrs 0 1 [\<lparr>u_src = 0, u_dst = 1, u_snr = 10, u_isDrop = False, u_useBlockchain = True\<rparr>] = [10] \<and>
   \<not> in_convex_hull
       (stored_snr (fst (run_calls [\<lparr>u_src = 0, u_dst = 1, u_snr = 10, u_isDrop = False, u_useBlockchain = True\<rparr>]
          (BlockchainLedger_new, counters_zero))) 0 1)
       (observed_snrs 0 1 [\<lparr>u_src = 0, u_dst = 1, u_snr = 10, u_isDrop = False, u_useBlockchain = True\<rparr>])"
  by (simp add: apply_call_def UpdateMetric_def MakeKey_def BlockchainLedger_new_def
      LinkMetric_new_def Let_def observed_snrs_def in_convex_hull_def stored_snr_def)

text \<open>
  C7, amended: after any sequence of \<open>UpdateMetric\<close> calls the \<open>movingAvgSnr\<close> of a record
  lies in the convex hull of the initial value 0.0 and the positive SNR values observed
  on its link.
\<close>

theorem ema_hull_with_initial:
  assumes "map_of (m_ledger (fst (run_calls cs (BlockchainLedger_new, G)))) (MakeKey a b) = Some m"
  shows "in_convex_hull (movingAvgSnr m) (0.0 # observed_snrs a b cs)"
proof -
  let ?s = "(BlockchainLedger_new, G)"
  let ?obs = "0.0 # observed_snrs a b cs"
  have st: "stored_snr (fst (run_calls cs ?s)) a b = movingAvgSnr m"
    using assms by (simp add: stored_snr_def)
  have s0: "stored_snr (fst ?s) a b = 0"
    by (simp add: stored_snr_def BlockchainLedger_new_def)
  have pos: "\<forall>x \<in> set (observed_snrs a b cs). 0 \<le> x"
    by (auto simp: observed_snrs_def)
  have lo: "0 \<le> movingAvgSnr m"
    using stored_snr_lower[of 0 ?s a b cs] s0 pos st by simp
  have "\<forall>x \<in> set (observed_snrs a b cs). x \<le> Max (set ?obs)" by simp
  moreover have "stored_snr (fst ?s) a b \<le> Max (set ?obs)" using s0 by simp
  ultimately have hi: "movingAvgSnr m \<le> Max (set ?obs)"
    using stored_snr_upper[of ?s a b "Max (set ?obs)" cs] st by simp
  have "Max (set ?obs) \<in> set ?obs" by (rule Max_in) simp_all
  moreover have "0 \<in> set ?obs" by simp
  ultimately show ?thesis using lo hi unfolding in_convex_hull_def by blast
qed

theorem ema_hull_with_initial_witness:
  "map_of (m_ledger (fst (run_calls
       [\<lparr>u_src = 0, u_dst = 1, u_snr = 10, u_isDrop = False, u_useBlockchain = True\<rparr>,
        \<lparr>u_src = 1, u_dst = 0, u_snr = 40, u_isDrop = False, u_useBlockchain = True\<rparr>]
        (BlockchainLedger_new, counters_zero)))) (MakeKey 0 1)
     = Some \<lparr>movingAvgSnr = 14.1, drops = 0, trust = 1\<rparr> \<and>
   in_convex_hull 14.1 [0, 10, 40]"
  using ema_hull_with_initial [of
       "[\<lparr>u_src = 0, u_dst = 1, u_snr = 10, u_isDrop = False, u_useBlockchain = True\<rparr>,
        \<lparr>u_src = 1, u_dst = 0, u_snr = 40, u_isDrop = False, u_useBlockchain = True\<rparr>]"
       counters_zero 0 1 "\<lparr>movingAvgSnr = 14.1, drops = 0, trust = 1\<rparr>"]
  by (simp add: apply_call_def UpdateMetric_def MakeKey_def BlockchainLedger_new_def
      LinkMetric_new_def Let_def observed_snrs_def)

subsection \<open>The key of a link\<close>

text \<open>
  C9 (symmetric ledger key). \<open>GetTrust\<close> and \<open>GetSnr\<close> return the same value for \<open>(a, b)\<close>
  and \<open>(b, a)\<close>; \<open>UpdateMetric\<close> has the same effect called with \<open>(a, b)\<close> or \<open>(b, a)\<close>; the
  key of both is \<open>(min a b, max a b)\<close>, a record is stored under it after the call, and
  the record of every other key is as before.
\<close>

theorem symmetric_key:
  "GetTrust L a b = GetTrust L b a \<and> GetSnr L a b = GetSnr L b a \<and>
   UpdateMetric a b snr isDrop ub s = UpdateMetric b a snr isDrop ub s \<and>
   MakeKey a b = (min a b, max a b) \<and> MakeKey b a = (min a b, max a b) \<and>
   map_of (m_ledger (fst (UpdateMetric a b snr isDrop ub s))) (min a b, max a b) \<noteq> None \<and>
   (\<forall>k. k \<noteq> (min a b, max a b) \<longrightarrow>
        map_of (m_ledger (fst (UpdateMetric a b snr isDrop ub s))) k = map_of (m_ledger (fst s)) k)"
proof -
  have k: "MakeKey b a = MakeKey a b" by (rule MakeKey_commute)
  have 1: "GetTrust L a b = GetTrust L b a" by (simp add: GetTrust_def k)
  have 2: "GetSnr L a b = GetSnr L b a" by (simp add: GetSnr_def k)
  have 3: "UpdateMetric a b snr isDrop ub s = UpdateMetric b a snr isDrop ub s"
    by (simp add: UpdateMetric_def k)
  have 4: "MakeKey a b = (min a b, max a b)" by (simp add: MakeKey_def)
  obtain L0 G0 where s: "s = (L0, G0)" by (cases s)
  have 5: "map_of (m_ledger (fst (UpdateMetric a b snr isDrop ub s))) (min a b, max a b) \<noteq> None"
    using stored_after_update[of a b snr isDrop ub L0 G0] by (simp add: s 4)
  have 6: "map_of (m_ledger (fst (UpdateMetric a b snr isDrop ub s))) k' = map_of (m_ledger (fst s)) k'"
    if "k' \<noteq> (min a b, max a b)" for k'
    using that by (simp add: s UpdateMetric_def Let_def update_conv' 4[symmetric])
  from 1 2 3 4 5 6 k show ?thesis by simp
qed

theorem symmetric_key_witness:
  "(let s = UpdateMetric 5 2 10 True True (BlockchainLedger_new, counters_zero)
    in GetTrust (fst s) 5 2 = 0.5 \<and> GetTrust (fst s) 2 5 = 0.5 \<and>
       GetSnr (fst s) 5 2 = 3 \<and> GetSnr (fst s) 2 5 = 3 \<and>
       UpdateMetric 2 5 10 True True (BlockchainLedger_new, counters_zero) = s \<and>
       map (fst) (m_ledger (fst s)) = [(2, 5)])"
  using symmetric_key [of "fst (UpdateMetric 5 2 10 True True (BlockchainLedger_new, counters_zero))"
           5 2 10 True True "(BlockchainLedger_new, counters_zero)"]
  by (simp add: UpdateMetric_def MakeKey_def BlockchainLedger_new_def GetTrust_def GetSnr_def
      LinkMetric_new_def Let_def)

subsection \<open>The dynamic classifier\<close>

lemma IsBlackhole_count_low:
  "\<forall>(k, m) \<in> set al. 0.3 \<le> trust m \<Longrightarrow> fst (IsBlackhole_count n al (lo, tot)) = lo"
  by (induction n al "(lo, tot)" arbitrary: tot rule: IsBlackhole_count.induct) auto

text \<open>
  C10 (the dynamic classifier never fires). On every ledger that \<open>UpdateMetric\<close> calls
  produce from the constructed one, \<open>IsBlackhole\<close> returns false for every node: no record
  has \<open>trust < 0.3\<close>, so \<open>lowTrustLinks\<close> stays 0.
\<close>

theorem classifier_never_fires:
  "\<not> IsBlackhole (fst (run_calls cs (BlockchainLedger_new, G))) n"
proof -
  let ?L = "fst (run_calls cs (BlockchainLedger_new, G))"
  have "\<forall>(k, m) \<in> set (m_ledger ?L). trust_ok m"
    by (rule run_calls_trust_ok) (simp add: BlockchainLedger_new_def)
  then have "\<forall>(k, m) \<in> set (m_ledger ?L). 0.3 \<le> trust m"
    by (auto simp: trust_ok_def)
  from IsBlackhole_count_low[OF this, of n 0 0]
  show ?thesis by (auto simp: IsBlackhole_def split: prod.splits)
qed

theorem classifier_never_fires_witness:
  "IsBlackhole_count 1 (m_ledger (fst (run_calls (map (drop_call 1 2) [0, 0, 0]) (BlockchainLedger_new, counters_zero)))) (0, 0) = (0, 1)
   \<and> \<not> IsBlackhole (fst (run_calls (map (drop_call 1 2) [0, 0, 0]) (BlockchainLedger_new, counters_zero))) 1"
  using classifier_never_fires [of "map (drop_call 1 2) [0, 0, 0]" counters_zero 1]
  by (simp add: apply_call_def drop_call_def UpdateMetric_def MakeKey_def BlockchainLedger_new_def
      LinkMetric_new_def Let_def)


section \<open>Rounding\<close>

subsection \<open>The nearest integer\<close>

lemma rne_of_int [simp]: "rne (of_int n) = n"
  by (simp add: rne_def)

lemma rne_bounds: "of_int (rne r) - 1/2 \<le> r \<and> r \<le> of_int (rne r) + 1/2"
  unfolding rne_def Let_def by (auto; linarith)

lemma rne_eqI: "\<bar>r - of_int n\<bar> < 1/2 \<Longrightarrow> rne r = n"
proof -
  assume a: "\<bar>r - of_int n\<bar> < 1/2"
  show ?thesis
  proof (cases "of_int n \<le> r")
    case True
    with a have "\<lfloor>r\<rfloor> = n" by (intro floor_unique) linarith+
    with a True show ?thesis by (simp add: rne_def Let_def)
  next
    case False
    with a have f: "\<lfloor>r\<rfloor> = n - 1" by (intro floor_unique) (simp, linarith+)
    with a False have "1/2 < r - of_int (n - 1)" by (simp; linarith)
    with f show ?thesis by (simp add: rne_def Let_def)
  qed
qed

lemma rne_mono: "r \<le> s \<Longrightarrow> rne r \<le> rne s"
proof (rule ccontr)
  assume rs: "r \<le> s" and "\<not> rne r \<le> rne s"
  then have "rne s + 1 \<le> rne r" by simp
  then have k: "(of_int (rne s) :: real) + 1 \<le> of_int (rne r)" by linarith
  from rne_bounds[of r] rne_bounds[of s] rs k have "r = s" by linarith
  with \<open>\<not> rne r \<le> rne s\<close> show False by simp
qed

subsection \<open>Powers of two and the exponent\<close>

lemma two_powi_pos [simp]: "0 < (2::real) powi k"
  by (simp add: power_int_def)

lemma two_powi_mono: "a \<le> b \<Longrightarrow> (2::real) powi a \<le> 2 powi b"
  by (rule power_int_increasing) simp_all

lemma two_powi_strict: "a < b \<Longrightarrow> (2::real) powi a < 2 powi b"
  by (rule power_int_strict_increasing) simp_all

lemma two_powi_less_iff: "(2::real) powi a < 2 powi b \<longleftrightarrow> a < b"
  using two_powi_strict[of a b] two_powi_mono[of b a] by (cases "a < b") auto


lemma two_powi_add: "(2::real) powi (a + b) = 2 powi a * 2 powi b"
  by (rule power_int_add) simp


lemma floor_log2_bounds:
  assumes "0 < x"
  shows "2 powi \<lfloor>log 2 x\<rfloor> \<le> x" and "x < 2 powi (\<lfloor>log 2 x\<rfloor> + 1)"
proof -
  have A: "2 powr real_of_int k = 2 powi k" for k by (simp add: powr_real_of_int')
  have "(\<lfloor>log 2 x\<rfloor> = \<lfloor>log 2 x\<rfloor>) =
        (2 powr real_of_int \<lfloor>log 2 x\<rfloor> \<le> x \<and> x < 2 powr real_of_int (\<lfloor>log 2 x\<rfloor> + 1))"
    by (rule floor_log_eq_powr_iff) (use assms in simp_all)
  then have "2 powr real_of_int \<lfloor>log 2 x\<rfloor> \<le> x \<and> x < 2 powr real_of_int (\<lfloor>log 2 x\<rfloor> + 1)"
    by blast
  then show "2 powi \<lfloor>log 2 x\<rfloor> \<le> x" and "x < 2 powi (\<lfloor>log 2 x\<rfloor> + 1)"
    unfolding A by blast+
qed

lemma expo_unclamped:
  assumes "2 powi (-1022) \<le> \<bar>x\<bar>"
  shows "2 powi (expo x) \<le> \<bar>x\<bar>" and "\<bar>x\<bar> < 2 powi (expo x + 1)"
proof -
  from assms have pos: "0 < \<bar>x\<bar>" using two_powi_pos[of "-1022"] by linarith
  from assms have e: "expo x = \<lfloor>log 2 \<bar>x\<bar>\<rfloor>" by (simp add: expo_def)
  show "2 powi (expo x) \<le> \<bar>x\<bar>" and "\<bar>x\<bar> < 2 powi (expo x + 1)"
    unfolding e using floor_log2_bounds[OF pos] by blast+
qed

lemma expo_ge: "-1022 \<le> expo x"
proof (cases "\<bar>x\<bar> < 2 powi (-1022)")
  case True
  then show ?thesis by (simp add: expo_def)
next
  case False
  then have x: "2 powi (-1022) \<le> \<bar>x\<bar>" by simp
  from expo_unclamped(2)[OF x] x have "(2::real) powi (-1022) < 2 powi (expo x + 1)" by linarith
  then have "-1022 < expo x + 1" by (simp only: two_powi_less_iff)
  then show ?thesis by simp
qed

lemma expo_upper: "\<bar>x\<bar> < 2 powi (expo x + 1)"
proof (cases "\<bar>x\<bar> < 2 powi (-1022)")
  case True
  then have "expo x = -1022" by (simp add: expo_def)
  moreover have "(2::real) powi (-1022) < 2 powi (-1021)" by (rule two_powi_strict) simp
  ultimately show ?thesis using True by simp
next
  case False
  then show ?thesis using expo_unclamped(2)[of x] by simp
qed

lemma expo_lower: "-1022 < expo x \<Longrightarrow> 2 powi (expo x) \<le> \<bar>x\<bar>"
  using expo_unclamped(1)[of x] by (cases "\<bar>x\<bar> < 2 powi (-1022)") (simp_all add: expo_def)

lemma expo_eqI:
  assumes "\<bar>x\<bar> < 2 powi (e + 1)" and "-1022 < e \<Longrightarrow> 2 powi e \<le> \<bar>x\<bar>" and "-1022 \<le> e"
  shows "expo x = e"
proof (rule antisym)
  show "expo x \<le> e"
  proof (rule ccontr)
    assume "\<not> expo x \<le> e"
    then have l: "e + 1 \<le> expo x" by simp
    with assms(3) have "-1022 < expo x" by simp
    from expo_lower[OF this] have "2 powi (expo x) \<le> \<bar>x\<bar>" .
    moreover have "(2::real) powi (e + 1) \<le> 2 powi (expo x)" using l by (rule two_powi_mono)
    ultimately show False using assms(1) by linarith
  qed
  show "e \<le> expo x"
  proof (rule ccontr)
    assume "\<not> e \<le> expo x"
    then have l: "expo x + 1 \<le> e" by simp
    with expo_ge[of x] have "-1022 < e" by simp
    from assms(2)[OF this] have "2 powi e \<le> \<bar>x\<bar>" .
    moreover have "(2::real) powi (expo x + 1) \<le> 2 powi e" using l by (rule two_powi_mono)
    ultimately show False using expo_upper[of x] by linarith
  qed
qed

lemma expo_mono: "\<bar>x\<bar> \<le> \<bar>y\<bar> \<Longrightarrow> expo x \<le> expo y"
proof (rule ccontr)
  assume xy: "\<bar>x\<bar> \<le> \<bar>y\<bar>" and "\<not> expo x \<le> expo y"
  then have l: "expo y + 1 \<le> expo x" by simp
  with expo_ge[of y] have "-1022 < expo x" by simp
  from expo_lower[OF this] have "2 powi (expo x) \<le> \<bar>x\<bar>" .
  moreover have "(2::real) powi (expo y + 1) \<le> 2 powi (expo x)" using l by (rule two_powi_mono)
  ultimately show False using expo_upper[of y] xy by linarith
qed

lemma ulp_pos [simp]: "0 < ulp x"
  by (simp add: ulp_def)

subsection \<open>Rounding is monotone, and exact on the doubles\<close>

declare power_int_numeral [simp del] power_int_numeral_neg_numeral [simp del]

lemma ulp_nonneg [simp]: "0 \<le> ulp x"
  using ulp_pos[of x] by linarith

lemma ulp_neq0 [simp]: "ulp x \<noteq> 0"
  using ulp_pos[of x] by linarith

lemma rne_numeral [simp]: "rne (numeral k) = numeral k"
  using rne_of_int[of "numeral k"] by simp

lemma rne_0 [simp]: "rne 0 = 0"
  using rne_of_int[of 0] by simp

lemmas fl_rd = fl_def

lemma two_powi_53: "(2::real) powi 53 = of_int (2 ^ 53)"
  by (simp add: power_int_numeral)

lemma two_powi_52: "(2::real) powi 52 = of_int (2 ^ 52)"
  by (simp add: power_int_numeral)

lemma two_powi_cong: "a = b \<Longrightarrow> (2::real) powi a = 2 powi b"
  by simp

lemma ulp_times: "2 powi 52 * ulp x = 2 powi (expo x)" "2 powi 53 * ulp x = 2 powi (expo x + 1)"
  unfolding ulp_def two_powi_add[symmetric] by (rule two_powi_cong, simp)+

lemma quot_upper: "\<bar>x\<bar> / ulp x < 2 powi 53"
proof -
  have "\<bar>x\<bar> < 2 powi 53 * ulp x" unfolding ulp_times by (rule expo_upper)
  then show ?thesis by (simp add: pos_divide_less_eq)
qed

lemma quot_lower: "-1022 < expo x \<Longrightarrow> 2 powi 52 \<le> \<bar>x\<bar> / ulp x"
proof -
  assume "-1022 < expo x"
  from expo_lower[OF this] have "2 powi 52 * ulp x \<le> \<bar>x\<bar>" unfolding ulp_times .
  then show ?thesis by (simp add: pos_le_divide_eq)
qed

lemma rd_nonneg: "0 \<le> x \<Longrightarrow> 0 \<le> rd x"
proof -
  assume "0 \<le> x"
  then have "0 \<le> x / ulp x" by simp
  from rne_mono[OF this] have "0 \<le> rne (x / ulp x)" by simp
  then show ?thesis by (simp add: rd_def)
qed

lemma rd_upper: "0 \<le> x \<Longrightarrow> rd x \<le> 2 powi (expo x + 1)"
proof -
  assume x: "0 \<le> x"
  with quot_upper[of x] have "x / ulp x \<le> of_int (2 ^ 53)" by (simp add: two_powi_53)
  from rne_mono[OF this] have "rne (x / ulp x) \<le> 2 ^ 53" by simp
  then have "(of_int (rne (x / ulp x)) :: real) \<le> 2 powi 53" unfolding two_powi_53 by linarith
  then have "rd x \<le> 2 powi 53 * ulp x" unfolding rd_def by (simp add: mult_right_mono)
  then show ?thesis unfolding ulp_times .
qed

lemma rd_lower: "0 \<le> x \<Longrightarrow> -1022 < expo x \<Longrightarrow> 2 powi (expo x) \<le> rd x"
proof -
  assume x: "0 \<le> x" and e: "-1022 < expo x"
  with quot_lower[OF e] have "of_int (2 ^ 52) \<le> x / ulp x" by (simp add: two_powi_52)
  from rne_mono[OF this] have "2 ^ 52 \<le> rne (x / ulp x)" by simp
  then have "2 powi 52 \<le> (of_int (rne (x / ulp x)) :: real)" unfolding two_powi_52 by linarith
  then have "2 powi 52 * ulp x \<le> rd x" unfolding rd_def by (simp add: mult_right_mono)
  then show ?thesis unfolding ulp_times .
qed

lemma rd_mono: "0 \<le> x \<Longrightarrow> x \<le> y \<Longrightarrow> rd x \<le> rd y"
proof -
  assume x: "0 \<le> x" and xy: "x \<le> y"
  then have y: "0 \<le> y" by simp
  from x xy have "expo x \<le> expo y" by (intro expo_mono) simp
  then consider "expo x = expo y" | "expo x < expo y" by linarith
  then show ?thesis
  proof cases
    case 1
    then have u: "ulp x = ulp y" by (simp add: ulp_def)
    have "x / ulp y \<le> y / ulp y" using xy by (simp add: divide_right_mono)
    from rne_mono[OF this] show ?thesis unfolding rd_def u by (simp add: mult_right_mono)
  next
    case 2
    then have "expo x + 1 \<le> expo y" and e: "-1022 < expo y" using expo_ge[of x] by simp_all
    then have "(2::real) powi (expo x + 1) \<le> 2 powi (expo y)" by (intro two_powi_mono)
    with rd_upper[OF x] rd_lower[OF y e] show ?thesis by linarith
  qed
qed

text \<open>Exactly representable numbers.\<close>

lemma fl_exact:
  assumes n: "\<bar>n\<bar> < 2 ^ 53" and k: "-1074 \<le> k" and b: "\<bar>of_int n * 2 powi k\<bar> < (2::real) powi 1024"
  shows "fl (of_int n * 2 powi k) = Fin (of_int n * 2 powi k)"
proof -
  let ?x = "of_int n * 2 powi k :: real"
  have le: "expo ?x \<le> k + 52"
  proof (rule ccontr)
    assume "\<not> expo ?x \<le> k + 52"
    then have l: "k + 53 \<le> expo ?x" by simp
    with k have "-1022 < expo ?x" by simp
    from expo_lower[OF this] have "2 powi (expo ?x) \<le> \<bar>?x\<bar>" .
    moreover have "(2::real) powi (k + 53) \<le> 2 powi (expo ?x)" using l by (rule two_powi_mono)
    moreover have "\<bar>?x\<bar> < 2 powi (k + 53)"
    proof -
      have "\<bar>of_int n :: real\<bar> < of_int (2 ^ 53)" using n by (metis of_int_abs of_int_less_iff)
      then have "\<bar>of_int n :: real\<bar> * 2 powi k < 2 powi 53 * 2 powi k"
        unfolding two_powi_53 by (intro mult_strict_right_mono) simp_all
      also have "(2::real) powi 53 * 2 powi k = 2 powi (k + 53)"
        unfolding two_powi_add[symmetric] by (rule two_powi_cong) simp
      finally show ?thesis by (simp add: abs_mult)
    qed
    ultimately show False by linarith
  qed
  define m where "m = nat (k + 52 - expo ?x)"
  define u where "u = ulp ?x"
  have upos: "0 < u" unfolding u_def by simp
  have m: "k = int m + (expo ?x - 52)" using le by (simp add: m_def)
  have "(2::real) powi k = 2 powi (int m + (expo ?x - 52))" by (rule two_powi_cong) (rule m)
  also have "\<dots> = 2 powi (int m) * u" unfolding two_powi_add u_def ulp_def ..
  finally have pk: "(2::real) powi k = 2 powi (int m) * u" .
  have "of_int n * 2 powi k / u = of_int n * (2::real) powi (int m)"
    unfolding pk using upos by simp
  also have "\<dots> = of_int (n * 2 ^ m)" by simp
  finally have q: "?x / u = of_int (n * 2 ^ m)" .
  have "rd ?x = of_int (n * 2 ^ m) * u" unfolding rd_def u_def[symmetric] q by (simp only: rne_of_int)
  also have "\<dots> = ?x / u * u" unfolding q ..
  also have "\<dots> = ?x" using upos by simp
  finally have r: "rd ?x = ?x" .
  from b have "?x < 2 powi 1024" "- (2 powi 1024) < ?x" by (simp_all add: abs_less_iff)
  then show ?thesis unfolding fl_rd r by simp
qed

lemma fl_0 [simp]: "fl 0 = Fin 0"
  using fl_exact[of 0 0] by simp

lemma fl_idem:
  assumes x: "0 \<le> x" and f: "fl x = Fin y"
  shows "fl y = Fin y"
proof -
  from f have y: "y = rd x" and lt: "rd x < 2 powi 1024"
    unfolding fl_rd by (auto split: if_splits)
  let ?n = "rne (x / ulp x)"
  have n0: "0 \<le> ?n" using rne_mono[of 0 "x / ulp x"] x by simp
  have "x / ulp x \<le> of_int (2 ^ 53)" using quot_upper[of x] x by (simp add: two_powi_53)
  from rne_mono[OF this] have n53: "?n \<le> 2 ^ 53" by simp
  have k: "-1074 \<le> expo x - 52" using expo_ge[of x] by simp
  have yx: "y = of_int ?n * 2 powi (expo x - 52)" unfolding y rd_def ulp_def ..
  have y0: "0 \<le> y" unfolding y using x by (rule rd_nonneg)
  show ?thesis
  proof (cases "?n = 2 ^ 53")
    case False
    with n0 n53 have "\<bar>?n\<bar> < 2 ^ 53" by simp
    moreover have "\<bar>of_int ?n * 2 powi (expo x - 52)\<bar> < (2::real) powi 1024"
      using lt y0 unfolding yx[symmetric] y[symmetric] by simp
    ultimately show ?thesis unfolding yx using k by (intro fl_exact)
  next
    case True
    then have "y = 2 powi 53 * 2 powi (expo x - 52)" unfolding yx two_powi_53 by simp
    then have y1: "y = of_int 1 * 2 powi (expo x + 1)" by (simp add: two_powi_add[symmetric] add.commute)
    have "\<bar>of_int 1 * 2 powi (expo x + 1)\<bar> < (2::real) powi 1024"
      using lt y0 unfolding y1[symmetric] y[symmetric] by simp
    moreover have "-1074 \<le> expo x + 1" using expo_ge[of x] by simp
    ultimately show ?thesis unfolding y1 by (intro fl_exact) simp_all
  qed
qed

text \<open>Evaluating \<open>fl\<close>.\<close>

lemma fl_eqI:
  assumes "2 powi e \<le> \<bar>x\<bar>" and "\<bar>x\<bar> < 2 powi (e + 1)" and "-1022 \<le> e"
    and "\<bar>x / 2 powi (e - 52) - of_int n\<bar> < 1/2"
    and "\<bar>of_int n * 2 powi (e - 52)\<bar> < (2::real) powi 1024"
  shows "fl x = Fin (of_int n * 2 powi (e - 52))"
proof -
  have e: "expo x = e" using assms(1,2,3) by (intro expo_eqI)
  have "rne (x / ulp x) = n" unfolding ulp_def e using assms(4) by (rule rne_eqI)
  then have r: "rd x = of_int n * 2 powi (e - 52)" unfolding rd_def by (simp add: ulp_def e)
  from assms(5) have "of_int n * 2 powi (e - 52) < (2::real) powi 1024"
      "- (2 powi 1024) < of_int n * (2::real) powi (e - 52)"
    by (simp_all add: abs_less_iff)
  then show ?thesis unfolding fl_rd r by simp
qed




subsection \<open>The order and the arithmetic on distances\<close>

lemma Fin_le [simp]: "Fin a \<le> Fin b \<longleftrightarrow> a \<le> b"
  by (auto simp: less_eq_double_def dcls_def dval_def)

lemma Fin_less [simp]: "Fin a < Fin b \<longleftrightarrow> a < b"
  by (auto simp: less_double_def)

lemma Fin_le_PInf [simp]: "Fin a \<le> PInf" "Fin a < PInf" "\<not> PInf \<le> Fin a" "\<not> PInf < Fin a"
  by (auto simp: less_double_def less_eq_double_def dcls_def dval_def)

lemma nonneg_le_PInf: "nonneg x \<Longrightarrow> x \<le> PInf"
  by (cases x) auto

lemma nonneg_PInf_le: "nonneg x \<Longrightarrow> PInf \<le> x \<longleftrightarrow> x = PInf"
  by (cases x) auto

lemma dgood_nonneg: "dgood x \<Longrightarrow> nonneg x"
  by (cases x) auto

lemma dless_nonneg: "nonneg a \<Longrightarrow> nonneg b \<Longrightarrow> dless a b \<longleftrightarrow> a < b"
  by (cases a; cases b) (auto simp: dless_def dcls_def dval_def)


lemma fl_nonneg: "0 \<le> x \<Longrightarrow> dgood (fl x)"
proof -
  assume x: "0 \<le> x"
  have r: "0 \<le> rd x" using x by (rule rd_nonneg)
  have p: "0 < (2::real) powi 1024" by simp
  show ?thesis
  proof (cases "2 powi 1024 \<le> rd x")
    case True
    then show ?thesis by (simp add: fl_rd)
  next
    case False
    with r p have f: "fl x = Fin (rd x)" unfolding fl_rd by auto
    from fl_idem[OF x f] f r show ?thesis by simp
  qed
qed

lemma fl_mono: "0 \<le> x \<Longrightarrow> x \<le> y \<Longrightarrow> fl x \<le> fl y"
proof -
  assume x: "0 \<le> x" and xy: "x \<le> y"
  have r: "0 \<le> rd x" "rd x \<le> rd y" using x xy by (auto intro: rd_nonneg rd_mono)
  have p: "0 < (2::real) powi 1024" by simp
  from r p show ?thesis unfolding fl_rd by auto
qed

lemma dadd_nonneg: "nonneg a \<Longrightarrow> nonneg b \<Longrightarrow> dgood (dadd a b)"
  by (cases a; cases b) (auto simp: dadd_def is_inf_def dval_def intro: fl_nonneg)

lemma dadd_infl: "dgood a \<Longrightarrow> nonneg w \<Longrightarrow> a \<le> dadd a w"
proof (cases a; cases w)
  fix c d assume a: "a = Fin c" and w: "w = Fin d" and g: "dgood a" and n: "nonneg w"
  then have c: "0 \<le> c" "fl c = Fin c" and d: "0 \<le> d" by auto
  show ?thesis
  proof (cases "c + d = 0")
    case True
    with c d have "c = 0" by linarith
    with True a w show ?thesis by (simp add: dadd_def is_inf_def dval_def)
  next
    case False
    have "fl c \<le> fl (c + d)" using c(1) d by (intro fl_mono) simp_all
    with False a w c show ?thesis by (simp add: dadd_def is_inf_def dval_def)
  qed
qed (auto simp: dadd_def is_inf_def)

lemma dadd_mono: "nonneg a \<Longrightarrow> nonneg b \<Longrightarrow> a \<le> b \<Longrightarrow> nonneg w \<Longrightarrow> dadd a w \<le> dadd b w"
proof (cases a; cases b; cases w)
  fix c d e assume a: "a = Fin c" and b: "b = Fin d" and w: "w = Fin e"
    and "nonneg a" "nonneg b" "a \<le> b" "nonneg w"
  then have c: "0 \<le> c" "c \<le> d" and e: "0 \<le> e" by auto
  have m: "fl (c + e) \<le> fl (d + e)" using c e by (intro fl_mono) simp_all
  have z: "Fin 0 \<le> fl (d + e)" using fl_mono[of 0 "d + e"] c e by simp
  show ?thesis
  proof (cases "c + e = 0")
    case True
    then show ?thesis using a b w z by (auto simp: dadd_def is_inf_def dval_def)
  next
    case False
    with c e have "d + e \<noteq> 0" by linarith
    with False show ?thesis using a b w m by (simp add: dadd_def is_inf_def dval_def)
  qed
next
  fix c e assume a: "a = Fin c" and b: "b = PInf" and w: "w = Fin e" and "nonneg a" "nonneg w"
  then have "dgood (dadd a w)" by (intro dadd_nonneg)
  then have "dadd a w \<le> PInf" by (intro nonneg_le_PInf dgood_nonneg)
  then show ?thesis using b w by (simp add: dadd_def is_inf_def)
qed (auto simp: dadd_def is_inf_def)

lemma rnd_pos: "rnd False x = fl x"
  by (simp add: rnd_def)

lemma ddiv_nonneg:
  assumes "a = Fin x" and "0 \<le> x" and "b = PInf \<or> (\<exists>y. b = Fin y \<and> 0 < y)"
  shows "dgood (ddiv a b)"
  using assms
  by (auto simp: ddiv_def is_inf_def is_zero_def dsign_def dval_def zero_of_def rnd_pos intro!: fl_nonneg)

lemma fl_int: "\<bar>n\<bar> < 2 ^ 53 \<Longrightarrow> fl (of_int n) = Fin (of_int n)"
proof -
  assume n: "\<bar>n\<bar> < 2 ^ 53"
  then have "\<bar>of_int n :: real\<bar> < of_int (2 ^ 53)" by (metis of_int_abs of_int_less_iff)
  also have "\<dots> = 2 powi 53" by (simp add: two_powi_53)
  also have "\<dots> < 2 powi 1024" by (simp add: two_powi_less_iff)
  finally have "\<bar>of_int n * 2 powi 0\<bar> < (2::real) powi 1024" by simp
  from fl_exact[OF n _ this] show ?thesis by simp
qed

lemma fl_numeral: "numeral k < (9007199254740992::int) \<Longrightarrow> fl (numeral k) = Fin (numeral k)"
  using fl_int[of "numeral k"] by simp

lemma fl_1 [simp]: "fl 1 = Fin 1"
  using fl_int[of 1] by simp

declare power_int_numeral [simp] power_int_numeral_neg_numeral [simp]

section \<open>Correctness of the path solver\<close>

subsection \<open>Distances\<close>

lemma nonneg_ge0: "nonneg x \<Longrightarrow> Fin 0 \<le> x"
  by (cases x) auto

subsection \<open>Walks\<close>

lemma neighbours_node: "v \<in> neighbours E u \<Longrightarrow> u \<in> graph_nodes E"
  by (auto simp: neighbours_def graph_nodes_def split: option.splits dest!: map_of_SomeD intro!: image_eqI)

lemma graph_nodes_map_of: "u \<in> graph_nodes E \<longleftrightarrow> map_of (m_graph E) u \<noteq> None"
  by (auto simp: graph_nodes_def map_of_eq_None_iff)

lemma wf_neighbour:
  assumes "wf_graph E" and "v \<in> neighbours E u"
  shows "v \<in> graph_nodes E"
  using assms unfolding wf_graph_def by blast

lemma wf_weight_nonneg: "wf_graph E \<Longrightarrow> nonneg (edge_weight E u v)"
  unfolding wf_graph_def by blast

lemma cost_from_good: "wf_graph E \<Longrightarrow> dgood c \<Longrightarrow> dgood (cost_from E c p)"
proof (induction E c p rule: cost_from.induct)
  case (1 E c u v rest)
  have "dgood (dadd c (edge_weight E u v))"
    using 1(2,3) by (intro dadd_nonneg dgood_nonneg wf_weight_nonneg)
  with 1 show ?case by simp
qed simp_all

lemma route_cost_good: "wf_graph E \<Longrightarrow> dgood (route_cost E p)"
  unfolding route_cost_def by (rule cost_from_good) simp_all

lemma route_cost_nonneg: "wf_graph E \<Longrightarrow> Fin 0 \<le> route_cost E p"
  by (intro nonneg_ge0 dgood_nonneg route_cost_good)

lemma cost_from_infl: "wf_graph E \<Longrightarrow> dgood c \<Longrightarrow> c \<le> cost_from E c p"
proof (induction E c p rule: cost_from.induct)
  case (1 E c u v rest)
  have g: "dgood (dadd c (edge_weight E u v))"
    using 1(2,3) by (intro dadd_nonneg dgood_nonneg wf_weight_nonneg)
  have "c \<le> dadd c (edge_weight E u v)"
    using 1(2,3) by (intro dadd_infl wf_weight_nonneg)
  also have "\<dots> \<le> cost_from E (dadd c (edge_weight E u v)) (v # rest)"
    using 1(2) g by (rule 1(1))
  finally show ?case by simp
qed simp_all

lemma cost_from_append:
  "p \<noteq> [] \<Longrightarrow> cost_from E c (p @ r) = cost_from E (cost_from E c p) (last p # r)"
  by (induction E c p rule: cost_from.induct) simp_all

lemma is_walk_nonempty: "is_walk E p \<Longrightarrow> p \<noteq> []"
  by auto

lemma is_walk_hd: "is_walk E p \<Longrightarrow> hd p \<in> graph_nodes E"
  by (induction E p rule: is_walk.induct) (auto dest: neighbours_node)

lemma is_walk_last: "is_walk E p \<Longrightarrow> last p \<in> graph_nodes E"
  by (induction E p rule: is_walk.induct) auto

lemma is_walk_snoc:
  "is_walk E p \<Longrightarrow> v \<in> neighbours E (last p) \<Longrightarrow> v \<in> graph_nodes E \<Longrightarrow> is_walk E (p @ [v])"
  by (induction E p rule: is_walk.induct) auto

lemma route_cost_snoc:
  "p \<noteq> [] \<Longrightarrow> route_cost E (p @ [v]) = dadd (route_cost E p) (edge_weight E (last p) v)"
  unfolding route_cost_def by (simp add: cost_from_append)

lemma is_walk_split:
  "is_walk E (q1 @ a # b # q2) \<Longrightarrow> is_walk E (q1 @ [a]) \<and> b \<in> neighbours E a"
proof (induction q1)
  case Nil
  then show ?case by (auto dest: neighbours_node)
next
  case (Cons x q1)
  then show ?case by (cases q1) auto
qed

lemma route_cost_prefix:
  assumes "wf_graph E"
  shows "route_cost E (q1 @ [a, b]) \<le> route_cost E (q1 @ a # b # q2)"
proof -
  have "route_cost E (q1 @ a # b # q2) = route_cost E ((q1 @ [a, b]) @ q2)" by simp
  also have "\<dots> = cost_from E (route_cost E (q1 @ [a, b])) (b # q2)"
    unfolding route_cost_def by (subst cost_from_append) simp_all
  finally have e: "route_cost E (q1 @ a # b # q2) = cost_from E (route_cost E (q1 @ [a, b])) (b # q2)" .
  show ?thesis unfolding e using assms by (intro cost_from_infl route_cost_good)
qed

lemma crossing_edge:
  "q \<noteq> [] \<Longrightarrow> hd q \<in> S \<Longrightarrow> last q \<notin> S \<Longrightarrow> \<exists>q1 a b q2. q = q1 @ a # b # q2 \<and> a \<in> S \<and> b \<notin> S"
proof (induction q)
  case Nil
  then show ?case by simp
next
  case (Cons x q)
  show ?case
  proof (cases q)
    case Nil
    with Cons.prems show ?thesis by simp
  next
    case (Cons y q')
    show ?thesis
    proof (cases "y \<in> S")
      case True
      with Cons.IH \<open>q = y # q'\<close> Cons.prems obtain q1 a b q2
        where "q = q1 @ a # b # q2" "a \<in> S" "b \<notin> S" by auto
      then have "x # q = (x # q1) @ a # b # q2" by simp
      with \<open>a \<in> S\<close> \<open>b \<notin> S\<close> show ?thesis by blast
    next
      case False
      have "x # q = [] @ x # y # q'" using \<open>q = y # q'\<close> by simp
      with False Cons.prems show ?thesis by (metis list.sel(1))
    qed
  qed
qed

subsection \<open>The chain of predecessors\<close>

lemma reconstruct_chain: "chain prev v p \<Longrightarrow> reconstruct prev v acc = Some (acc @ rev p)"
proof (induction arbitrary: acc rule: chain.induct)
  case (chain_start v)
  then show ?case by (simp add: reconstruct.simps[of prev v] reconstruct.simps[of prev UINT32_MAX])
next
  case (chain_step v p)
  then show ?case by (simp add: reconstruct.simps[of prev v])
qed

lemma chain_cong: "chain prev v p \<Longrightarrow> (\<forall>x \<in> set p. prev' x = prev x) \<Longrightarrow> chain prev' v p"
proof (induction rule: chain.induct)
  case (chain_start v)
  then show ?case by (auto intro: chain.chain_start)
next
  case (chain_step v p)
  then show ?case by (auto intro: chain.chain_step)
qed

subsection \<open>The minimum search\<close>

lemma find_min_le:
  "find_min dm xs (u, m) = (u', m') \<Longrightarrow> nonneg m \<Longrightarrow> \<forall>x \<in> set xs. nonneg (dm x) \<Longrightarrow>
     m' \<le> m \<and> (\<forall>x \<in> set xs. m' \<le> dm x)"
proof (induction xs arbitrary: u m)
  case Nil
  then show ?case by simp
next
  case (Cons a xs)
  from Cons.prems(3) have na: "nonneg (dm a)" and nx: "\<forall>x \<in> set xs. nonneg (dm x)" by simp_all
  have lt: "dless (dm a) m \<longleftrightarrow> dm a < m" using na Cons.prems(2) by (rule dless_nonneg)
  show ?case
  proof (cases "dless (dm a) m")
    case True
    with Cons.prems have "find_min dm xs (a, dm a) = (u', m')" by simp
    from Cons.IH[OF this na nx] True lt show ?thesis by auto
  next
    case False
    with Cons.prems have "find_min dm xs (u, m) = (u', m')" by simp
    from Cons.IH[OF this Cons.prems(2) nx] False lt show ?thesis by auto
  qed
qed

lemma find_min_spec:
  assumes "find_min dm unv (UINT32_MAX, PInf) = (u, m)" and "UINT32_MAX \<notin> set unv"
    and n: "\<forall>x \<in> set unv. nonneg (dm x)"
  shows "if u = UINT32_MAX \<or> m = PInf then \<forall>v \<in> set unv. dm v = PInf
         else u \<in> set unv \<and> dm u \<noteq> PInf \<and> (\<forall>v \<in> set unv. dm u \<le> dm v)"
proof -
  from find_min_cases[OF assms(1)]
  have c: "(u = UINT32_MAX \<and> m = PInf) \<or> (u \<in> set unv \<and> m = dm u)" .
  from find_min_le[OF assms(1) _ n] have le: "\<forall>x \<in> set unv. m \<le> dm x" by simp
  show ?thesis
  proof (cases "u = UINT32_MAX \<or> m = PInf")
    case True
    with c assms(2) have "m = PInf" by auto
    with le n True show ?thesis by (auto simp: nonneg_PInf_le)
  next
    case False
    with c have "u \<in> set unv" "m = dm u" "dm u \<noteq> PInf" by auto
    with le False show ?thesis by auto
  qed
qed

subsection \<open>Relaxation\<close>

lemma relax_spec:
  assumes "u \<notin> set unv"
  shows "relax E u nbrs unv (dm, prev) =
     (\<lambda>x. if x \<in> set nbrs \<and> x \<in> set unv \<and> dless (dadd (dm u) (edge_weight E u x)) (dm x)
           then dadd (dm u) (edge_weight E u x) else dm x,
      \<lambda>x. if x \<in> set nbrs \<and> x \<in> set unv \<and> dless (dadd (dm u) (edge_weight E u x)) (dm x)
           then u else prev x)"
proof (induction nbrs arbitrary: dm prev)
  case Nil
  then show ?case by simp
next
  case (Cons v vs)
  show ?case
  proof (cases "v \<in> set unv \<and> dless (dadd (dm u) (edge_weight E u v)) (dm v)")
    case True
    then have vu: "v \<noteq> u" using assms by auto
    let ?alt = "dadd (dm u) (edge_weight E u v)"
    have "relax E u (v # vs) unv (dm, prev) = relax E u vs unv (dm(v := ?alt), prev(v := u))"
      using True by (simp add: Let_def)
    also have "\<dots> = (\<lambda>x. if x \<in> set vs \<and> x \<in> set unv \<and> dless (dadd ((dm(v := ?alt)) u) (edge_weight E u x)) ((dm(v := ?alt)) x)
           then dadd ((dm(v := ?alt)) u) (edge_weight E u x) else (dm(v := ?alt)) x,
      \<lambda>x. if x \<in> set vs \<and> x \<in> set unv \<and> dless (dadd ((dm(v := ?alt)) u) (edge_weight E u x)) ((dm(v := ?alt)) x)
           then u else (prev(v := u)) x)"
      by (rule Cons.IH)
    also have "\<dots> = (\<lambda>x. if x \<in> set (v # vs) \<and> x \<in> set unv \<and> dless (dadd (dm u) (edge_weight E u x)) (dm x)
           then dadd (dm u) (edge_weight E u x) else dm x,
      \<lambda>x. if x \<in> set (v # vs) \<and> x \<in> set unv \<and> dless (dadd (dm u) (edge_weight E u x)) (dm x)
           then u else prev x)"
      using True vu by (auto simp: fun_eq_iff)
    finally show ?thesis .
  next
    case False
    then have "relax E u (v # vs) unv (dm, prev) = relax E u vs unv (dm, prev)"
      by (auto simp: Let_def)
    also have "\<dots> = (\<lambda>x. if x \<in> set vs \<and> x \<in> set unv \<and> dless (dadd (dm u) (edge_weight E u x)) (dm x)
           then dadd (dm u) (edge_weight E u x) else dm x,
      \<lambda>x. if x \<in> set vs \<and> x \<in> set unv \<and> dless (dadd (dm u) (edge_weight E u x)) (dm x)
           then u else prev x)"
      by (rule Cons.IH)
    also have "\<dots> = (\<lambda>x. if x \<in> set (v # vs) \<and> x \<in> set unv \<and> dless (dadd (dm u) (edge_weight E u x)) (dm x)
           then dadd (dm u) (edge_weight E u x) else dm x,
      \<lambda>x. if x \<in> set (v # vs) \<and> x \<in> set unv \<and> dless (dadd (dm u) (edge_weight E u x)) (dm x)
           then u else prev x)"
      using False by (auto simp: fun_eq_iff)
    finally show ?thesis .
  qed
qed

text \<open>The state after one iteration that visits \<open>u\<close>.\<close>

lemma visit_spec:
  "(case map_of (m_graph E) u of
      Some nbrs \<Rightarrow> relax E u nbrs (removeAll u unv) (dm, prev)
    | None \<Rightarrow> (dm, prev)) =
   (\<lambda>x. if x \<in> neighbours E u \<and> x \<in> set unv \<and> x \<noteq> u \<and> dless (dadd (dm u) (edge_weight E u x)) (dm x)
         then dadd (dm u) (edge_weight E u x) else dm x,
    \<lambda>x. if x \<in> neighbours E u \<and> x \<in> set unv \<and> x \<noteq> u \<and> dless (dadd (dm u) (edge_weight E u x)) (dm x)
         then u else prev x)"
proof (cases "map_of (m_graph E) u")
  case None
  then show ?thesis by (simp add: neighbours_def)
next
  case (Some nbrs)
  have "u \<notin> set (removeAll u unv)" by simp
  from relax_spec[OF this, of E nbrs dm prev] Some show ?thesis
    by (auto simp: neighbours_def fun_eq_iff)
qed

subsection \<open>Initialisation\<close>

lemma dijkstra_init_spec:
  "dijkstra_init ks (dm, prev, unv) = (dm', prev', unv') \<Longrightarrow>
     set unv' = set unv \<union> set ks \<and>
     (\<forall>k. dm' k = (if k \<in> set ks then PInf else dm k)) \<and>
     (\<forall>k. prev' k = (if k \<in> set ks then UINT32_MAX else prev k))"
proof (induction ks arbitrary: dm prev unv)
  case Nil
  then show ?case by simp
next
  case (Cons k ks)
  from Cons.prems
  have "dijkstra_init ks (dm(k := PInf), prev(k := UINT32_MAX), insort_insert k unv) = (dm', prev', unv')"
    by simp
  from Cons.IH[OF this] show ?case by (auto simp: set_insort_insert)
qed

subsection \<open>The parts of the invariant\<close>

lemma inv_unv: "dijkstra_inv E s (dm, prev, unv) \<Longrightarrow> set unv \<subseteq> graph_nodes E"
  by (simp add: dijkstra_inv_def)

lemma inv_source: "dijkstra_inv E s (dm, prev, unv) \<Longrightarrow> s \<in> graph_nodes E \<and> dm s = Fin 0"
  by (simp add: dijkstra_inv_def)

lemma inv_path:
  "dijkstra_inv E s (dm, prev, unv) \<Longrightarrow> v \<in> graph_nodes E \<Longrightarrow> dm v \<noteq> PInf \<Longrightarrow>
   \<exists>p. chain prev v p \<and> is_route E s v p \<and> route_cost E p = dm v \<and>
       set (butlast p) \<subseteq> graph_nodes E - set unv"
  unfolding dijkstra_inv_def by simp

lemma inv_settled:
  "dijkstra_inv E s (dm, prev, unv) \<Longrightarrow> v \<in> graph_nodes E \<Longrightarrow> v \<notin> set unv \<Longrightarrow>
   dm v \<noteq> PInf \<and> (\<forall>q. is_route E s v q \<longrightarrow> dm v \<le> route_cost E q)"
  unfolding dijkstra_inv_def by simp

lemma inv_relaxed:
  "dijkstra_inv E s (dm, prev, unv) \<Longrightarrow> u \<in> graph_nodes E \<Longrightarrow> u \<notin> set unv \<Longrightarrow>
   v \<in> neighbours E u \<Longrightarrow> v \<in> set unv \<Longrightarrow> dm v \<le> dadd (dm u) (edge_weight E u v)"
  unfolding dijkstra_inv_def by simp

text \<open>Every distance of a node is a double that is not negative, or \<open>+infinity\<close>.\<close>

lemma inv_good:
  assumes "wf_graph E" and "dijkstra_inv E s (dm, prev, unv)" and "v \<in> graph_nodes E"
  shows "dgood (dm v)"
proof (cases "dm v = PInf")
  case True
  then show ?thesis by simp
next
  case False
  from inv_path[OF assms(2,3) False] obtain p where "route_cost E p = dm v" by blast
  with route_cost_good[OF assms(1), of p] show ?thesis by simp
qed

subsection \<open>The nearest unvisited node is settled\<close>

lemma nearest_is_optimal:
  assumes wf: "wf_graph E" and inv: "dijkstra_inv E s (dm, prev, unv)"
    and u: "u \<in> set unv" and umin: "\<forall>v \<in> set unv. dm u \<le> dm v"
    and q: "is_route E s u q"
  shows "dm u \<le> route_cost E q"
proof (cases "s \<in> set unv")
  case True
  with umin have "dm u \<le> dm s" by blast
  also have "dm s = Fin 0" using inv_source[OF inv] by simp
  also have "Fin 0 \<le> route_cost E q" using wf by (rule route_cost_nonneg)
  finally show ?thesis .
next
  case False
  let ?S = "graph_nodes E - set unv"
  from inv_source[OF inv] have sn: "s \<in> graph_nodes E" by simp
  from q have qw: "is_walk E q" and "hd q = s" and "last q = u" by (auto simp: is_route_def)
  then have "q \<noteq> []" "hd q \<in> ?S" "last q \<notin> ?S" using False sn u by auto
  from crossing_edge[OF this] obtain q1 a b q2
    where qq: "q = q1 @ a # b # q2" and a: "a \<in> ?S" and b: "b \<notin> ?S" by blast
  from is_walk_split[of E q1 a b q2] qw qq
  have w1: "is_walk E (q1 @ [a])" and ab: "b \<in> neighbours E a" by auto
  from wf_neighbour[OF wf ab] b have bu: "b \<in> set unv" by auto
  have "hd (q1 @ [a]) = s" using \<open>hd q = s\<close> qq by (cases q1) auto
  with w1 have r1: "is_route E s a (q1 @ [a])" by (simp add: is_route_def)
  from a have an: "a \<in> graph_nodes E" by simp
  from inv_settled[OF inv, of a] a r1 have da: "dm a \<le> route_cost E (q1 @ [a])"
    by blast
  from inv_relaxed[OF inv, of a b] a ab bu have db: "dm b \<le> dadd (dm a) (edge_weight E a b)"
    by blast
  have "dm u \<le> dm b" using umin bu by blast
  also have "\<dots> \<le> dadd (dm a) (edge_weight E a b)" by (rule db)
  also have "\<dots> \<le> dadd (route_cost E (q1 @ [a])) (edge_weight E a b)"
    using da wf by (intro dadd_mono dgood_nonneg inv_good[OF wf inv an] route_cost_good wf_weight_nonneg)
  also have "\<dots> = route_cost E (q1 @ [a, b])"
    using route_cost_snoc[of "q1 @ [a]" E b] by simp
  also have "\<dots> \<le> route_cost E q" unfolding qq using wf by (rule route_cost_prefix)
  finally show ?thesis .
qed

subsection \<open>One iteration preserves the invariant\<close>

lemma set_butlast_last: "p \<noteq> [] \<Longrightarrow> set p = insert (last p) (set (butlast p))"
  by (induction p) auto

lemma is_route_nonempty: "is_route E s d p \<Longrightarrow> p \<noteq> [] \<and> hd p = s \<and> last p = d"
  by (auto simp: is_route_def)

lemma is_route_snoc:
  assumes "is_route E s u p" and "v \<in> neighbours E u" and "v \<in> graph_nodes E"
  shows "is_route E s v (p @ [v])"
proof -
  from assms(1) have "is_walk E p" "p \<noteq> []" "hd p = s" "last p = u"
    by (auto simp: is_route_def)
  with assms(2,3) is_walk_snoc[of E p v] show ?thesis
    by (simp add: is_route_def)
qed

lemma visit_preserves_inv:
  assumes wf: "wf_graph E" and inv: "dijkstra_inv E s (dm, prev, unv)"
    and u: "u \<in> set unv" and ufin: "dm u \<noteq> PInf" and umin: "\<forall>v \<in> set unv. dm u \<le> dm v"
    and dm': "dm' = (\<lambda>x. if x \<in> neighbours E u \<and> x \<in> set unv \<and> x \<noteq> u \<and> dless (dadd (dm u) (edge_weight E u x)) (dm x)
                        then dadd (dm u) (edge_weight E u x) else dm x)"
    and prev': "prev' = (\<lambda>x. if x \<in> neighbours E u \<and> x \<in> set unv \<and> x \<noteq> u \<and> dless (dadd (dm u) (edge_weight E u x)) (dm x)
                        then u else prev x)"
  shows "dijkstra_inv E s (dm', prev', removeAll u unv)"
proof -
  let ?alt = "\<lambda>x. dadd (dm u) (edge_weight E u x)"
  let ?C = "\<lambda>x. x \<in> neighbours E u \<and> x \<in> set unv \<and> x \<noteq> u \<and> dless (?alt x) (dm x)"
  let ?S = "graph_nodes E - set unv"
  let ?S' = "graph_nodes E - set (removeAll u unv)"
  have dmC: "dm' x = ?alt x" "prev' x = u" if "?C x" for x
    using that by (simp_all add: dm' prev')
  have dmN: "dm' x = dm x" "prev' x = prev x" if "\<not> ?C x" for x
    using that unfolding dm' prev' by (simp_all only: if_False)
  from inv_unv[OF inv] u have un: "u \<in> graph_nodes E" by auto
  have good: "dgood (dm x)" if "x \<in> graph_nodes E" for x
    using wf inv that by (rule inv_good)
  have galt: "dgood (?alt x)" for x
    by (intro dadd_nonneg dgood_nonneg good[OF un] wf_weight_nonneg[OF wf])
  have lt: "dless (?alt x) (dm x) \<longleftrightarrow> ?alt x < dm x" if "x \<in> graph_nodes E" for x
    by (intro dless_nonneg dgood_nonneg galt good[OF that])
  have S': "?S' = insert u ?S" using un by auto
  have notC: "\<not> ?C x" if "x \<in> ?S'" for x using that by auto
  from inv_path[OF inv un ufin] obtain pu where
    pu: "chain prev u pu" "is_route E s u pu" "route_cost E pu = dm u" "set (butlast pu) \<subseteq> ?S"
    by blast
  from is_route_nonempty[OF pu(2)] have pu_ne: "pu \<noteq> []" "hd pu = s" "last pu = u" by auto
  have pu_set: "set pu \<subseteq> ?S'" using set_butlast_last[OF pu_ne(1)] pu(4) pu_ne(3) S' by auto
  have uopt: "dm u \<le> route_cost E q" if "is_route E s u q" for q
    using nearest_is_optimal[OF wf inv u umin that] .
  have i1: "set (removeAll u unv) \<subseteq> graph_nodes E" using inv_unv[OF inv] by auto
  have sn: "s \<in> graph_nodes E" and ds: "dm s = Fin 0" using inv_source[OF inv] by simp_all
  have "\<not> ?C s"
  proof
    assume "?C s"
    then have "?alt s < dm s" using lt[OF sn] by simp
    then have "?alt s < Fin 0" using ds by simp
    moreover have "Fin 0 \<le> ?alt s" by (intro nonneg_ge0 dgood_nonneg galt)
    ultimately show False by simp
  qed
  then have i2: "s \<in> graph_nodes E \<and> dm' s = Fin 0" using sn ds dmN(1)[of s] by simp
  have i3: "\<exists>p. chain prev' v p \<and> is_route E s v p \<and> route_cost E p = dm' v \<and> set (butlast p) \<subseteq> ?S'"
    if v: "v \<in> graph_nodes E" and fin: "dm' v \<noteq> PInf" for v
  proof (cases "?C v")
    case True
    have vm: "v \<noteq> UINT32_MAX" using v wf by (auto simp: wf_graph_def)
    have "\<forall>x \<in> set pu. prev' x = prev x" using pu_set notC dmN(2) by blast
    from chain_cong[OF pu(1) this] have "chain prev' (prev' v) pu" using dmC(2)[OF True] by simp
    with vm have c: "chain prev' v (pu @ [v])" by (rule chain_step)
    from True have "v \<in> neighbours E u" by simp
    from is_route_snoc[OF pu(2) this v] have r: "is_route E s v (pu @ [v])" .
    have k: "route_cost E (pu @ [v]) = dm' v"
      using route_cost_snoc[OF pu_ne(1), of E v] pu(3) pu_ne(3) dmC(1)[OF True] by simp
    have "set (butlast (pu @ [v])) \<subseteq> ?S'" using pu_set by simp
    with c r k show ?thesis by blast
  next
    case False
    then have e: "dm' v = dm v" by (rule dmN(1))
    with fin have "dm v \<noteq> PInf" by simp
    from inv_path[OF inv v this] obtain p where
      p: "chain prev v p" "is_route E s v p" "route_cost E p = dm v" "set (butlast p) \<subseteq> ?S"
      by blast
    from is_route_nonempty[OF p(2)] have "p \<noteq> []" "last p = v" by auto
    from set_butlast_last[OF this(1)] this(2) have "set p = insert v (set (butlast p))" by simp
    then have "\<forall>x \<in> set p. \<not> ?C x" using p(4) False by auto
    then have "\<forall>x \<in> set p. prev' x = prev x" using dmN(2) by blast
    from chain_cong[OF p(1) this] have c: "chain prev' v p" .
    have "set (butlast p) \<subseteq> ?S'" using p(4) S' by auto
    with c p(2,3) e show ?thesis by auto
  qed
  have i4: "dm' v \<noteq> PInf \<and> (\<forall>q. is_route E s v q \<longrightarrow> dm' v \<le> route_cost E q)"
    if v: "v \<in> ?S'" for v
  proof -
    have e: "dm' v = dm v" using notC[OF v] by (rule dmN(1))
    show ?thesis
    proof (cases "v = u")
      case True
      with e ufin uopt show ?thesis by simp
    next
      case False
      with v S' have "v \<in> graph_nodes E" "v \<notin> set unv" by auto
      from inv_settled[OF inv this] e show ?thesis by simp
    qed
  qed
  have i5: "dm' v \<le> dadd (dm' a) (edge_weight E a v)"
    if a: "a \<in> ?S'" and v: "v \<in> neighbours E a \<inter> set (removeAll u unv)" for a v
  proof -
    have ea: "dm' a = dm a" using notC[OF a] by (rule dmN(1))
    from v have vu: "v \<in> set unv" "v \<noteq> u" "v \<in> neighbours E a" by auto
    from vu(1) inv_unv[OF inv] have vn: "v \<in> graph_nodes E" by auto
    have le: "dm' v \<le> dm v"
    proof (cases "?C v")
      case True
      then have "?alt v < dm v" using lt[OF vn] by simp
      then have "?alt v \<le> dm v" by (rule less_imp_le)
      then show ?thesis using dmC(1)[OF True] by simp
    next
      case False
      then show ?thesis using dmN(1)[OF False] by simp
    qed
    show ?thesis
    proof (cases "a = u")
      case True
      show ?thesis
      proof (cases "?C v")
        case True
        with \<open>a = u\<close> ea dmC(1)[OF True] show ?thesis by simp
      next
        case False
        with vu \<open>a = u\<close> have "\<not> ?alt v < dm v" using lt[OF vn] by simp
        then have "dm v \<le> ?alt v" by simp
        with le \<open>a = u\<close> ea show ?thesis by simp
      qed
    next
      case False
      with a S' have "a \<in> graph_nodes E" "a \<notin> set unv" by auto
      from inv_relaxed[OF inv this vu(3) vu(1)] le ea show ?thesis by simp
    qed
  qed
  show ?thesis
    unfolding dijkstra_inv_def using i1 i2 i3 i4 i5 by simp
qed

subsection \<open>The main loop\<close>

lemma dijkstra_loop_inv:
  "wf_graph E \<Longrightarrow> dijkstra_inv E s st \<Longrightarrow>
   dijkstra_inv E s (dijkstra_loop E dest st) \<and> dijkstra_exit dest (dijkstra_loop E dest st)"
proof (induction E dest st rule: dijkstra_loop.induct)
  case (1 E dest dm prev unv)
  note wf = "1.prems"(1) and inv = "1.prems"(2)
  show ?case
  proof (cases "unv = []")
    case True
    then have "dijkstra_loop E dest (dm, prev, unv) = (dm, prev, unv)"
      by (subst dijkstra_loop.simps) simp
    with inv True show ?thesis by (simp add: dijkstra_exit_def)
  next
    case False
    obtain u m where fm: "find_min dm unv (UINT32_MAX, PInf) = (u, m)"
      by (cases "find_min dm unv (UINT32_MAX, PInf)")
    have nm: "UINT32_MAX \<notin> set unv" using inv_unv[OF inv] wf by (auto simp: wf_graph_def)
    have "\<forall>x \<in> set unv. nonneg (dm x)"
      using inv_unv[OF inv] inv_good[OF wf inv] by (auto intro: dgood_nonneg)
    note sp = find_min_spec[OF fm nm this]
    show ?thesis
    proof (cases "u = UINT32_MAX \<or> m = PInf")
      case True
      then have "dijkstra_loop E dest (dm, prev, unv) = (dm, prev, unv)"
        using False fm by (subst dijkstra_loop.simps) auto
      moreover from sp True have "\<forall>v \<in> set unv. dm v = PInf" by simp
      ultimately show ?thesis using inv by (simp add: dijkstra_exit_def)
    next
      case nb: False
      with sp have u: "u \<in> set unv" and ufin: "dm u \<noteq> PInf" and umin: "\<forall>v \<in> set unv. dm u \<le> dm v"
        by auto
      show ?thesis
      proof (cases "u = dest")
        case True
        then have "dijkstra_loop E dest (dm, prev, unv) = (dm, prev, unv)"
          using False fm nb by (subst dijkstra_loop.simps) auto
        moreover have "dest \<in> set unv \<and> dm dest \<noteq> PInf \<and> (\<forall>v \<in> set unv. dm dest \<le> dm v)"
          using True u ufin umin by simp
        ultimately show ?thesis using inv by (simp add: dijkstra_exit_def)
      next
        case ud: False
        let ?C = "\<lambda>x. x \<in> neighbours E u \<and> x \<in> set unv \<and> x \<noteq> u \<and> dless (dadd (dm u) (edge_weight E u x)) (dm x)"
        let ?dm = "\<lambda>x. if ?C x then dadd (dm u) (edge_weight E u x) else dm x"
        let ?prev = "\<lambda>x. if ?C x then u else prev x"
        let ?y = "case map_of (m_graph E) u of
                    Some nbrs \<Rightarrow> relax E u nbrs (removeAll u unv) (dm, prev)
                  | None \<Rightarrow> (dm, prev)"
        have y: "?y = (?dm, ?prev)" by (rule visit_spec)
        have inv': "dijkstra_inv E s (?dm, ?prev, removeAll u unv)"
          by (rule visit_preserves_inv[OF wf inv u ufin umin refl refl])
        have step: "dijkstra_loop E dest (dm, prev, unv) = dijkstra_loop E dest (?dm, ?prev, removeAll u unv)"
          using False fm nb ud y by (subst dijkstra_loop.simps) (simp add: Let_def)
        have "dijkstra_inv E s (dijkstra_loop E dest (?dm, ?prev, removeAll u unv)) \<and>
              dijkstra_exit dest (dijkstra_loop E dest (?dm, ?prev, removeAll u unv))"
          using "1.IH"[OF False fm[symmetric] refl nb ud refl refl y[symmetric] wf inv'] .
        with step show ?thesis by simp
      qed
    qed
  qed
qed

subsection \<open>The contract of the solver on a well-formed graph\<close>

lemma no_route_outside_graph:
  "is_route E s d q \<Longrightarrow> s \<in> graph_nodes E \<and> d \<in> graph_nodes E"
  using is_walk_hd[of E q] is_walk_last[of E q] by (auto simp: is_route_def)

lemma dijkstra_inv_initial:
  assumes wf: "wf_graph E" and s: "s \<in> graph_nodes E"
    and init: "dijkstra_init (map fst (m_graph E)) (\<lambda>_. Fin 0, \<lambda>_. 0, []) = (dm0, prev0, unv0)"
  shows "dijkstra_inv E s (dm0(s := Fin 0), prev0, unv0)"
proof -
  have ks: "set (map fst (m_graph E)) = graph_nodes E" by (simp add: graph_nodes_def)
  from dijkstra_init_spec[OF init] ks
  have unv0: "set unv0 = graph_nodes E"
    and dm0: "\<And>k. k \<in> graph_nodes E \<Longrightarrow> dm0 k = PInf"
    and prev0: "\<And>k. k \<in> graph_nodes E \<Longrightarrow> prev0 k = UINT32_MAX"
    by auto
  have sm: "s \<noteq> UINT32_MAX" using wf s by (auto simp: wf_graph_def)
  have "chain prev0 s [s]" using sm prev0[OF s] by (rule chain_start)
  moreover have "is_route E s s [s]" using s by (simp add: is_route_def)
  moreover have "route_cost E [s] = Fin 0" by (simp add: route_cost_def)
  ultimately have
    "\<exists>p. chain prev0 s p \<and> is_route E s s p \<and> route_cost E p = Fin 0 \<and> set (butlast p) \<subseteq> {}"
    by (intro exI[of _ "[s]"]) simp
  then show ?thesis
    unfolding dijkstra_inv_def using unv0 dm0 s by auto
qed

text \<open>
  On a well-formed graph \<open>CalculatePath\<close> returns. The result is a route of finite cost
  that no route undercuts, or it is empty and every route costs \<open>+infinity\<close>.
\<close>

lemma CalculatePath_wf:
  assumes wf: "wf_graph E"
  shows "\<exists>p. CalculatePath E s d = Some p \<and>
             (if p = [] then \<forall>q. is_route E s d q \<longrightarrow> route_cost E q = PInf
              else is_route E s d p \<and> route_cost E p \<noteq> PInf \<and>
                   (\<forall>q. is_route E s d q \<longrightarrow> route_cost E p \<le> route_cost E q))"
proof (cases "s \<in> graph_nodes E \<and> d \<in> graph_nodes E")
  case False
  then have "CalculatePath E s d = Some []"
    by (auto simp: CalculatePath_def graph_nodes_map_of)
  moreover have "\<not> is_route E s d q" for q using False no_route_outside_graph[of E s d q] by blast
  ultimately show ?thesis by simp
next
  case True
  then have s: "s \<in> graph_nodes E" and d: "d \<in> graph_nodes E" by auto
  obtain dm0 prev0 unv0
    where init: "dijkstra_init (map fst (m_graph E)) (\<lambda>_. Fin 0, \<lambda>_. 0, []) = (dm0, prev0, unv0)"
    by (cases "dijkstra_init (map fst (m_graph E)) (\<lambda>_. Fin 0, \<lambda>_. 0, [])") auto
  obtain dm prev unv
    where loop: "dijkstra_loop E d (dm0(s := Fin 0), prev0, unv0) = (dm, prev, unv)"
    by (cases "dijkstra_loop E d (dm0(s := Fin 0), prev0, unv0)") auto
  from dijkstra_loop_inv[OF wf dijkstra_inv_initial[OF wf s init], of d] loop
  have inv: "dijkstra_inv E s (dm, prev, unv)" and ex: "dijkstra_exit d (dm, prev, unv)" by auto
  have cp: "CalculatePath E s d =
      (if dm d \<noteq> PInf then map_option rev (reconstruct prev d []) else Some [])"
    using True init loop by (auto simp: CalculatePath_def graph_nodes_map_of)
  show ?thesis
  proof (cases "dm d = PInf")
    case fin: False
    from inv_path[OF inv d fin] obtain p where
      p: "chain prev d p" "is_route E s d p" "route_cost E p = dm d" by blast
    from reconstruct_chain[OF p(1), of "[]"] cp fin have res: "CalculatePath E s d = Some p" by simp
    have "dm d \<le> route_cost E q" if q: "is_route E s d q" for q
    proof (cases "d \<in> set unv")
      case False
      from inv_settled[OF inv d False] q show ?thesis by blast
    next
      case True
      with ex fin have "\<forall>v \<in> set unv. dm d \<le> dm v" by (auto simp: dijkstra_exit_def)
      from nearest_is_optimal[OF wf inv True this q] show ?thesis .
    qed
    moreover have "p \<noteq> []" using is_route_nonempty[OF p(2)] by simp
    ultimately show ?thesis using res p fin by auto
  next
    case inf: True
    with cp have res: "CalculatePath E s d = Some []" by simp
    have "route_cost E q = PInf" if q: "is_route E s d q" for q
    proof -
      let ?S = "graph_nodes E - set unv"
      have du: "d \<in> set unv" using inv_settled[OF inv d] inf by blast
      with ex inf have allinf: "\<forall>v \<in> set unv. dm v = PInf" by (auto simp: dijkstra_exit_def)
      have "dm s \<noteq> PInf" using inv_source[OF inv] by simp
      with allinf have "s \<notin> set unv" by blast
      with s du q have "q \<noteq> []" "hd q \<in> ?S" "last q \<notin> ?S" by (auto simp: is_route_def)
      from crossing_edge[OF this] obtain q1 a b q2
        where qq: "q = q1 @ a # b # q2" and a: "a \<in> ?S" and b: "b \<notin> ?S" by blast
      from q qq is_walk_split[of E q1 a b q2]
      have w1: "is_walk E (q1 @ [a])" and ab: "b \<in> neighbours E a"
        by (auto simp: is_route_def)
      from wf_neighbour[OF wf ab] b have bu: "b \<in> set unv" by auto
      from a have an: "a \<in> graph_nodes E" "a \<notin> set unv" by auto
      have "hd (q1 @ [a]) = s" using q qq by (cases q1) (auto simp: is_route_def)
      with w1 have r1: "is_route E s a (q1 @ [a])" by (simp add: is_route_def)
      from inv_settled[OF inv an] r1 have da: "dm a \<le> route_cost E (q1 @ [a])" by blast
      from allinf bu have "PInf = dm b" by simp
      also from inv_relaxed[OF inv an ab bu] have "dm b \<le> dadd (dm a) (edge_weight E a b)" .
      also have "\<dots> \<le> dadd (route_cost E (q1 @ [a])) (edge_weight E a b)"
        using da wf by (intro dadd_mono dgood_nonneg inv_good[OF wf inv an(1)] route_cost_good wf_weight_nonneg)
      also have "\<dots> = route_cost E (q1 @ [a, b])"
        using route_cost_snoc[of "q1 @ [a]" E b] by simp
      also have "\<dots> \<le> route_cost E q" unfolding qq using wf by (rule route_cost_prefix)
      finally have "PInf \<le> route_cost E q" .
      then show ?thesis
        using nonneg_PInf_le[OF dgood_nonneg[OF route_cost_good[OF wf, of q]]] by simp
    qed
    with res show ?thesis by simp
  qed
qed

section \<open>The graph of \<open>BuildGraph\<close>\<close>

subsection \<open>One pair of \<open>BuildGraph\<close>\<close>

lemma BuildGraph_pair_unlinked:
  "\<not> linked nodes r a b \<Longrightarrow> BuildGraph_pair nodes L r ds a b E = E"
  by (auto simp: BuildGraph_pair_def linked_def split: option.splits)

lemma BuildGraph_pair_linked:
  "linked nodes r a b \<Longrightarrow> BuildGraph_pair nodes L r ds a b E =
     E\<lparr>m_graph := graph_insert b a (graph_insert a b (m_graph E)),
       m_weights := AList.update (b, a) (edge_cost E L ds a b)
                      (AList.update (a, b) (edge_cost E L ds a b) (m_weights E))\<rparr>"
  by (auto simp: BuildGraph_pair_def linked_def Let_def split: option.splits)

lemma map_of_graph_insert:
  "map_of (graph_insert i j g) k =
     (if k = i then Some (insort_insert j (case map_of g i of None \<Rightarrow> [] | Some s \<Rightarrow> s))
      else map_of g k)"
  by (simp add: graph_insert_def update_conv')

lemma nbrs_graph_insert:
  "(case map_of (graph_insert i j g) u of None \<Rightarrow> {} | Some s \<Rightarrow> set s) =
     (if u = i then insert j (case map_of g u of None \<Rightarrow> {} | Some s \<Rightarrow> set s)
      else (case map_of g u of None \<Rightarrow> {} | Some s \<Rightarrow> set s))"
  by (simp add: map_of_graph_insert set_insort_insert split: option.splits)

lemma dom_graph_insert:
  "(map_of (graph_insert i j g) u \<noteq> None) = (u = i \<or> map_of g u \<noteq> None)"
  by (simp add: map_of_graph_insert)

lemma m_graph_pair_linked:
  "linked nodes r a b \<Longrightarrow>
   m_graph (BuildGraph_pair nodes L r ds a b E) = graph_insert b a (graph_insert a b (m_graph E))"
  by (simp add: BuildGraph_pair_linked)

lemma m_weights_pair_linked:
  "linked nodes r a b \<Longrightarrow>
   m_weights (BuildGraph_pair nodes L r ds a b E) =
     AList.update (b, a) (edge_cost E L ds a b)
       (AList.update (a, b) (edge_cost E L ds a b) (m_weights E))"
  by (simp add: BuildGraph_pair_linked)

lemma neighbours_pair:
  "neighbours (BuildGraph_pair nodes L r ds a b E) u =
     neighbours E u \<union> {v. linked nodes r a b \<and> ((u = a \<and> v = b) \<or> (u = b \<and> v = a))}"
proof (cases "linked nodes r a b")
  case False
  show ?thesis unfolding BuildGraph_pair_unlinked[OF False] using False by simp
next
  case True
  have "neighbours (BuildGraph_pair nodes L r ds a b E) u =
        (if u = b then insert a (if u = a then insert b (neighbours E u) else neighbours E u)
         else (if u = a then insert b (neighbours E u) else neighbours E u))"
    unfolding neighbours_def m_graph_pair_linked[OF True]
    by (simp only: nbrs_graph_insert)
  also have "\<dots> = neighbours E u \<union> {v. (u = a \<and> v = b) \<or> (u = b \<and> v = a)}"
    by (cases "u = a"; cases "u = b") auto
  finally show ?thesis using True by simp
qed

lemma graph_nodes_pair:
  "graph_nodes (BuildGraph_pair nodes L r ds a b E) =
     graph_nodes E \<union> {u. linked nodes r a b \<and> (u = a \<or> u = b)}"
proof (cases "linked nodes r a b")
  case False
  show ?thesis unfolding BuildGraph_pair_unlinked[OF False] using False by simp
next
  case True
  have "u \<in> graph_nodes (BuildGraph_pair nodes L r ds a b E) \<longleftrightarrow>
        u = b \<or> u = a \<or> u \<in> graph_nodes E" for u
    unfolding graph_nodes_map_of m_graph_pair_linked[OF True]
    by (simp only: dom_graph_insert)
  then show ?thesis using True by auto
qed

lemma map_of_update_pair:
  "map_of (AList.update (b, a) c (AList.update (a, b) c w)) (u, v) =
     (if u = b \<and> v = a then Some c
      else if u = a \<and> v = b then Some c
      else map_of w (u, v))"
  by (simp add: update_conv')

lemma case_if_weight:
  "(case (if P then Some c else if Q then Some c else m) of Some w \<Rightarrow> w | None \<Rightarrow> PInf) =
     (if Q \<or> P then c else (case m of Some w \<Rightarrow> w | None \<Rightarrow> PInf))"
  by simp

lemma edge_weight_pair:
  "edge_weight (BuildGraph_pair nodes L r ds a b E) u v =
     (if linked nodes r a b \<and> ((u = a \<and> v = b) \<or> (u = b \<and> v = a))
      then edge_cost E L ds a b else edge_weight E u v)"
proof (cases "linked nodes r a b")
  case False
  then have "(linked nodes r a b \<and> ((u = a \<and> v = b) \<or> (u = b \<and> v = a))) = False" by blast
  then show ?thesis unfolding BuildGraph_pair_unlinked[OF False] by (simp only: if_False)
next
  case True
  then have "(linked nodes r a b \<and> ((u = a \<and> v = b) \<or> (u = b \<and> v = a))) =
             ((u = a \<and> v = b) \<or> (u = b \<and> v = a))" by blast
  then show ?thesis
    unfolding edge_weight_def m_weights_pair_linked[OF True] map_of_update_pair case_if_weight
    by (simp only:)
qed

lemma params_pair:
  "m_alpha (BuildGraph_pair nodes L r ds a b E) = m_alpha E \<and>
   m_beta (BuildGraph_pair nodes L r ds a b E) = m_beta E \<and>
   m_useBlockchain (BuildGraph_pair nodes L r ds a b E) = m_useBlockchain E"
proof (cases "linked nodes r a b")
  case False
  show ?thesis unfolding BuildGraph_pair_unlinked[OF False] by simp
next
  case True
  show ?thesis unfolding BuildGraph_pair_linked[OF True] by simp
qed

lemma edge_cost_params:
  assumes "m_alpha E' = m_alpha E" and "m_beta E' = m_beta E"
    and "m_useBlockchain E' = m_useBlockchain E"
  shows "edge_cost E' L ds a b = edge_cost E L ds a b"
  unfolding edge_cost_def assms ..

lemma GetTrust_commute: "GetTrust L a b = GetTrust L b a"
  by (simp add: GetTrust_def MakeKey_commute)

lemma GetSnr_commute: "GetSnr L a b = GetSnr L b a"
  by (simp add: GetSnr_def MakeKey_commute)

lemma edge_cost_commute: "edge_cost E L ds a b = edge_cost E L ds b a"
  by (simp add: edge_cost_def GetTrust_commute[of L a b] GetSnr_commute[of L a b])

subsection \<open>The loops of \<open>BuildGraph\<close>\<close>

lemma fold_nested:
  "fold (\<lambda>i. fold (f i) (js i)) xs E =
   fold (\<lambda>(i, j). f i j) (concat (map (\<lambda>i. map (Pair i) (js i)) xs)) E"
  by (induction xs arbitrary: E) (simp_all add: fold_map comp_def)

lemma BuildGraph_build_fold:
  "BuildGraph nodes L r bh ds E =
     build_fold nodes L r ds (nat_pairs (unat (GetN nodes))) (E\<lparr>m_graph := [], m_weights := []\<rparr>)"
  unfolding BuildGraph_def build_fold_def nat_pairs_def Let_def
  by (rule fold_nested)

lemma set_nat_pairs: "(i, j) \<in> set (nat_pairs n) \<longleftrightarrow> i < j \<and> j < n"
proof
  assume "(i, j) \<in> set (nat_pairs n)"
  then show "i < j \<and> j < n" by (auto simp: nat_pairs_def)
next
  assume h: "i < j \<and> j < n"
  then have "i \<in> set [0 ..< n]" and "(i, j) \<in> set (map (Pair i) [Suc i ..< n])" by auto
  then show "(i, j) \<in> set (nat_pairs n)" unfolding nat_pairs_def set_concat by (auto simp del: set_upt)
qed

lemma build_fold_Nil: "build_fold nodes L r ds [] E = E"
  by (simp add: build_fold_def)

lemma build_fold_Cons:
  "build_fold nodes L r ds ((i, j) # ps) E =
     build_fold nodes L r ds ps (BuildGraph_pair nodes L r ds (of_nat i) (of_nat j) E)"
  by (simp add: build_fold_def)

lemma neighbours_build_fold:
  "neighbours (build_fold nodes L r ds ps E) u =
     neighbours E u \<union>
     {v. \<exists>(i, j) \<in> set ps. linked nodes r (of_nat i) (of_nat j) \<and>
            ((u = of_nat i \<and> v = of_nat j) \<or> (u = of_nat j \<and> v = of_nat i))}"
proof (induction ps arbitrary: E)
  case Nil
  then show ?case by (simp add: build_fold_Nil)
next
  case (Cons p ps)
  obtain i j where p: "p = (i, j)" by (cases p)
  show ?case unfolding p build_fold_Cons Cons.IH neighbours_pair by auto
qed

lemma graph_nodes_build_fold:
  "graph_nodes (build_fold nodes L r ds ps E) =
     graph_nodes E \<union>
     {u. \<exists>(i, j) \<in> set ps. linked nodes r (of_nat i) (of_nat j) \<and> (u = of_nat i \<or> u = of_nat j)}"
proof (induction ps arbitrary: E)
  case Nil
  then show ?case by (simp add: build_fold_Nil)
next
  case (Cons p ps)
  obtain i j where p: "p = (i, j)" by (cases p)
  show ?case unfolding p build_fold_Cons Cons.IH graph_nodes_pair by auto
qed

lemma params_build_fold:
  "m_alpha (build_fold nodes L r ds ps E) = m_alpha E \<and>
   m_beta (build_fold nodes L r ds ps E) = m_beta E \<and>
   m_useBlockchain (build_fold nodes L r ds ps E) = m_useBlockchain E"
proof (induction ps arbitrary: E)
  case Nil
  then show ?case by (simp add: build_fold_Nil)
next
  case (Cons p ps)
  obtain i j where p: "p = (i, j)" by (cases p)
  show ?case unfolding p build_fold_Cons using Cons.IH params_pair by simp
qed

lemma weights_ok_pair:
  assumes "weights_ok L ds E"
  shows "weights_ok L ds (BuildGraph_pair nodes L r ds a b E)"
proof -
  let ?E' = "BuildGraph_pair nodes L r ds a b E"
  have ec: "edge_cost ?E' L ds u v = edge_cost E L ds u v" for u v
    using params_pair[of nodes L r ds a b E] by (intro edge_cost_params) simp_all
  have "edge_weight ?E' u v = (if v \<in> neighbours ?E' u then edge_cost E L ds u v else PInf)" for u v
  proof (cases "linked nodes r a b \<and> ((u = a \<and> v = b) \<or> (u = b \<and> v = a))")
    case True
    then have "edge_weight ?E' u v = edge_cost E L ds a b"
      unfolding edge_weight_pair by (rule if_P)
    moreover have "edge_cost E L ds a b = edge_cost E L ds u v"
      using True edge_cost_commute[of E L ds a b] by blast
    moreover have "v \<in> neighbours ?E' u" unfolding neighbours_pair using True by blast
    ultimately show ?thesis by simp
  next
    case False
    then have e: "edge_weight ?E' u v = edge_weight E u v"
      unfolding edge_weight_pair by (rule if_not_P)
    from False have "v \<in> neighbours ?E' u \<longleftrightarrow> v \<in> neighbours E u"
      unfolding neighbours_pair by blast
    with e assms show ?thesis unfolding weights_ok_def by simp
  qed
  then show ?thesis unfolding weights_ok_def ec by blast
qed

lemma weights_ok_build_fold:
  "weights_ok L ds E \<Longrightarrow> weights_ok L ds (build_fold nodes L r ds ps E)"
proof (induction ps arbitrary: E)
  case Nil
  then show ?case by (simp add: build_fold_Nil)
next
  case (Cons p ps)
  obtain i j where p: "p = (i, j)" by (cases p)
  show ?case unfolding p build_fold_Cons
    by (rule Cons.IH) (rule weights_ok_pair[OF Cons.prems])
qed

subsection \<open>The graph \<open>BuildGraph\<close> builds\<close>

lemma unat_of_nat_below:
  assumes "i < unat (n :: uint32_t)"
  shows "unat (of_nat i :: uint32_t) = i"
proof -
  have "unat n < 2 ^ LENGTH(32)" by (rule unsigned_less)
  with assms have "i < 2 ^ LENGTH(32)" by simp
  then show ?thesis by (simp add: unat_of_nat)
qed

lemma of_nat_below_id:
  assumes "i < unat (n :: uint32_t)"
  shows "(of_nat i :: uint32_t) < n"
  using unat_of_nat_below[OF assms] assms by (simp add: word_less_nat_alt)

lemma neighbours_empty_graph: "neighbours (E\<lparr>m_graph := [], m_weights := []\<rparr>) u = {}"
  by (simp add: neighbours_def)

lemma graph_nodes_empty_graph: "graph_nodes (E\<lparr>m_graph := [], m_weights := []\<rparr>) = {}"
  by (simp add: graph_nodes_def)

lemma edge_weight_empty_graph: "edge_weight (E\<lparr>m_graph := [], m_weights := []\<rparr>) u v = PInf"
  by (simp add: edge_weight_def)

lemma neighbours_build_foldI:
  assumes "(i, j) \<in> set ps" and "linked nodes r (of_nat i) (of_nat j)"
  shows "of_nat j \<in> neighbours (build_fold nodes L r ds ps E) (of_nat i)"
    and "of_nat i \<in> neighbours (build_fold nodes L r ds ps E) (of_nat j)"
  unfolding neighbours_build_fold using assms by (auto intro!: bexI[of _ "(i, j)"])

lemma of_nat_less_below:
  assumes "i < j" and "j < unat (n :: uint32_t)"
  shows "(of_nat i :: uint32_t) < of_nat j"
  using unat_of_nat_below[of i n] unat_of_nat_below[OF assms(2)] assms
  by (simp add: word_less_nat_alt)

lemma BuildGraph_neighbours:
  "b \<in> neighbours (BuildGraph nodes L r bh ds E) a \<longleftrightarrow>
     a < GetN nodes \<and> b < GetN nodes \<and> a \<noteq> b \<and> linked nodes r (min a b) (max a b)"
proof
  let ?N = "unat (GetN nodes)"
  assume "b \<in> neighbours (BuildGraph nodes L r bh ds E) a"
  then obtain i j where ij: "(i, j) \<in> set (nat_pairs ?N)"
    and l: "linked nodes r (of_nat i) (of_nat j)"
    and ab: "(a = of_nat i \<and> b = of_nat j) \<or> (a = of_nat j \<and> b = of_nat i)"
    unfolding BuildGraph_build_fold neighbours_build_fold neighbours_empty_graph by blast
  from ij have lt: "i < j" "j < ?N" "i < ?N" by (auto simp: set_nat_pairs)
  have less: "(of_nat i :: uint32_t) < of_nat j" using lt(1,2) by (rule of_nat_less_below)
  then have le: "(of_nat i :: uint32_t) \<le> of_nat j" by (rule less_imp_le)
  have mm: "min (of_nat i :: uint32_t) (of_nat j) = of_nat i" "max (of_nat i :: uint32_t) (of_nat j) = of_nat j"
      "min (of_nat j :: uint32_t) (of_nat i) = of_nat i" "max (of_nat j :: uint32_t) (of_nat i) = of_nat j"
    using le by (simp_all add: min_absorb1 min_absorb2 max_absorb1 max_absorb2)
  from less have ne: "(of_nat i :: uint32_t) \<noteq> of_nat j" by simp
  have li: "(of_nat i :: uint32_t) < GetN nodes" using lt(3) by (rule of_nat_below_id)
  have lj: "(of_nat j :: uint32_t) < GetN nodes" using lt(2) by (rule of_nat_below_id)
  from ab show "a < GetN nodes \<and> b < GetN nodes \<and> a \<noteq> b \<and> linked nodes r (min a b) (max a b)"
  proof
    assume "a = of_nat i \<and> b = of_nat j"
    then have a: "a = of_nat i" and b: "b = of_nat j" by blast+
    show ?thesis unfolding a b mm using li lj ne l by (intro conjI)
  next
    assume "a = of_nat j \<and> b = of_nat i"
    then have a: "a = of_nat j" and b: "b = of_nat i" by blast+
    show ?thesis unfolding a b mm using lj li ne[symmetric] l by (intro conjI)
  qed
next
  let ?N = "unat (GetN nodes)"
  assume h: "a < GetN nodes \<and> b < GetN nodes \<and> a \<noteq> b \<and> linked nodes r (min a b) (max a b)"
  from h have ua: "unat a < ?N" using word_less_nat_alt[of a "GetN nodes"] by blast
  from h have ub: "unat b < ?N" using word_less_nat_alt[of b "GetN nodes"] by blast
  from h have ne: "unat a \<noteq> unat b" using word_unat_eq_iff[of a b] by blast
  have oa: "of_nat (unat a) = a" and ob: "of_nat (unat b) = b" by simp_all
  show "b \<in> neighbours (BuildGraph nodes L r bh ds E) a"
  proof (cases "unat a < unat b")
    case True
    then have "a \<le> b" by (simp add: word_le_nat_alt)
    then have "min a b = a" "max a b = b" by (simp_all add: min_absorb1 max_absorb2)
    with h have l: "linked nodes r a b" by simp
    from True ub have "(unat a, unat b) \<in> set (nat_pairs ?N)" by (simp add: set_nat_pairs)
    moreover have "linked nodes r (of_nat (unat a)) (of_nat (unat b))" using l oa ob by simp
    ultimately have "of_nat (unat b) \<in> neighbours (BuildGraph nodes L r bh ds E) (of_nat (unat a))"
      unfolding BuildGraph_build_fold by (rule neighbours_build_foldI(1))
    then show ?thesis unfolding oa ob .
  next
    case False
    with ne have "unat b < unat a" by simp
    then have "b \<le> a" by (simp add: word_le_nat_alt)
    then have "min a b = b" "max a b = a" by (simp_all add: min_absorb2 max_absorb1)
    with h have l: "linked nodes r b a" by simp
    from False ne ua have "(unat b, unat a) \<in> set (nat_pairs ?N)" by (simp add: set_nat_pairs)
    moreover have "linked nodes r (of_nat (unat b)) (of_nat (unat a))" using l oa ob by simp
    ultimately have "of_nat (unat b) \<in> neighbours (BuildGraph nodes L r bh ds E) (of_nat (unat a))"
      unfolding BuildGraph_build_fold by (rule neighbours_build_foldI(2))
    then show ?thesis unfolding oa ob .
  qed
qed

lemma BuildGraph_neighbours_sym:
  "b \<in> neighbours (BuildGraph nodes L r bh ds E) a \<longleftrightarrow> a \<in> neighbours (BuildGraph nodes L r bh ds E) b"
  unfolding BuildGraph_neighbours by (auto simp: min.commute max.commute)

lemma BuildGraph_graph_nodes:
  "a \<in> graph_nodes (BuildGraph nodes L r bh ds E) \<longleftrightarrow>
     (\<exists>b. b \<in> neighbours (BuildGraph nodes L r bh ds E) a)"
proof
  assume "a \<in> graph_nodes (BuildGraph nodes L r bh ds E)"
  then obtain i j where l: "linked nodes r (of_nat i) (of_nat j)"
    and ij: "(i, j) \<in> set (nat_pairs (unat (GetN nodes)))"
    and a: "a = of_nat i \<or> a = of_nat j"
    unfolding BuildGraph_build_fold graph_nodes_build_fold graph_nodes_empty_graph by blast
  from a show "\<exists>b. b \<in> neighbours (BuildGraph nodes L r bh ds E) a"
  proof
    assume a: "a = of_nat i"
    have "of_nat j \<in> neighbours (BuildGraph nodes L r bh ds E) a"
      unfolding BuildGraph_build_fold a using ij l by (rule neighbours_build_foldI(1))
    then show ?thesis ..
  next
    assume a: "a = of_nat j"
    have "of_nat i \<in> neighbours (BuildGraph nodes L r bh ds E) a"
      unfolding BuildGraph_build_fold a using ij l by (rule neighbours_build_foldI(2))
    then show ?thesis ..
  qed
next
  assume "\<exists>b. b \<in> neighbours (BuildGraph nodes L r bh ds E) a"
  then show "a \<in> graph_nodes (BuildGraph nodes L r bh ds E)" by (auto dest: neighbours_node)
qed

lemma BuildGraph_params:
  "m_alpha (BuildGraph nodes L r bh ds E) = m_alpha E \<and>
   m_beta (BuildGraph nodes L r bh ds E) = m_beta E \<and>
   m_useBlockchain (BuildGraph nodes L r bh ds E) = m_useBlockchain E"
  unfolding BuildGraph_build_fold using params_build_fold[of nodes L r ds _ "E\<lparr>m_graph := [], m_weights := []\<rparr>"]
  by simp

lemma BuildGraph_edge_cost:
  "edge_cost (BuildGraph nodes L r bh ds E) L' ds' a b = edge_cost E L' ds' a b"
  using BuildGraph_params[of nodes L r bh ds E] by (intro edge_cost_params) simp_all

lemma BuildGraph_weights:
  "edge_weight (BuildGraph nodes L r bh ds E) a b =
     (if b \<in> neighbours (BuildGraph nodes L r bh ds E) a then edge_cost E L ds a b else PInf)"
proof -
  have "weights_ok L ds (E\<lparr>m_graph := [], m_weights := []\<rparr>)"
    unfolding weights_ok_def neighbours_empty_graph edge_weight_empty_graph by simp
  then have "weights_ok L ds (BuildGraph nodes L r bh ds E)"
    unfolding BuildGraph_build_fold by (rule weights_ok_build_fold)
  then show ?thesis unfolding weights_ok_def BuildGraph_edge_cost by blast
qed

text \<open>The weight of an edge is a double that is not negative, or \<open>+infinity\<close>.\<close>

lemma fl_cases: "fl x = PInf \<or> fl x = MInf \<or> (\<exists>y. fl x = Fin y)"
  by (simp add: fl_def)

lemma dless_0_iff: "dless (Fin 0) d \<longleftrightarrow> d = PInf \<or> (\<exists>y. d = Fin y \<and> 0 < y)"
  by (cases d) (auto simp: dless_def dcls_def dval_def)

lemma guard_pos:
  assumes "dless (Fin 0) ds"
  shows "dless (Fin 0) (if dle (fl x) (Fin 0) then ds else fl x)"
  using assms fl_cases[of x] by (auto simp: dless_def dle_def dcls_def dval_def)

lemma fl_03: "fl 0.3 = Fin (5404319552844595 / 18014398509481984)"
  using fl_eqI[of "-2" "3 / 10" "5404319552844595"]
  by (simp add: power_int_numeral power_int_numeral_neg_numeral)

lemma floor_pos:
  assumes "dless (Fin 0) t"
  shows "dless (Fin 0) (if dless t (fl 0.3) then fl 0.3 else t)"
  using assms unfolding fl_03 by (auto simp: dless_def dcls_def dval_def)

lemma ddiv_pos_good:
  assumes "a = Fin x" and "0 \<le> x" and "dless (Fin 0) b"
  shows "dgood (ddiv a b)"
  using assms(3) unfolding dless_0_iff by (intro ddiv_nonneg[OF assms(1,2)])

lemma edge_cost_baseline: "\<not> m_useBlockchain E \<Longrightarrow> edge_cost E L ds a b = Fin 1"
  by (simp add: edge_cost_def)

lemma edge_cost_good:
  assumes "m_alpha E = Fin x" and "0 \<le> x" and "m_beta E = Fin y" and "0 \<le> y"
    and "dless (Fin 0) ds"
  shows "dgood (edge_cost E L ds a b)"
proof (cases "m_useBlockchain E")
  case False
  then show ?thesis by (simp add: edge_cost_baseline)
next
  case True
  let ?snr = "if dle (fl (GetSnr L a b)) (Fin 0) then ds else fl (GetSnr L a b)"
  let ?t1 = "if dle (fl (GetTrust L a b)) (Fin 0) then Fin 1 else fl (GetTrust L a b)"
  let ?t = "if dless ?t1 (fl 0.3) then fl 0.3 else ?t1"
  have s: "dless (Fin 0) ?snr" using assms(5) by (rule guard_pos)
  have "dless (Fin 0) (Fin 1)" by (simp add: dless_def dcls_def dval_def)
  then have "dless (Fin 0) ?t1" by (rule guard_pos)
  then have t: "dless (Fin 0) ?t" by (rule floor_pos)
  have e: "edge_cost E L ds a b = dadd (ddiv (m_alpha E) ?snr) (ddiv (m_beta E) ?t)"
    using True unfolding edge_cost_def Let_def by (simp only: if_True)
  show ?thesis unfolding e
    by (intro dadd_nonneg dgood_nonneg ddiv_pos_good[OF assms(1,2) s] ddiv_pos_good[OF assms(3,4) t])
qed

lemma below_not_UINT32_MAX: "(a :: uint32_t) < n \<Longrightarrow> a \<noteq> UINT32_MAX"
proof
  assume "a < n" and "a = UINT32_MAX"
  then have "unat (4294967295 :: uint32_t) < unat n" by (simp add: word_less_nat_alt UINT32_MAX_def)
  moreover have "unat n < 2 ^ LENGTH(32)" by (rule unsigned_less)
  ultimately show False by simp
qed

lemma wf_graph_BuildGraph:
  assumes "\<not> m_useBlockchain E \<or>
           (\<exists>x y. m_alpha E = Fin x \<and> 0 \<le> x \<and> m_beta E = Fin y \<and> 0 \<le> y \<and> dless (Fin 0) ds)"
  shows "wf_graph (BuildGraph nodes L r bh ds E)"
proof -
  let ?G = "BuildGraph nodes L r bh ds E"
  have c: "nonneg (edge_cost E L ds a b)" for a b
    using assms edge_cost_baseline[of E L ds a b] edge_cost_good[of E _ _ ds L a b]
    by (auto intro: dgood_nonneg)
  have 1: "UINT32_MAX \<notin> graph_nodes ?G"
  proof
    assume "UINT32_MAX \<in> graph_nodes ?G"
    then obtain b where "b \<in> neighbours ?G UINT32_MAX" unfolding BuildGraph_graph_nodes ..
    then have "UINT32_MAX < GetN nodes" unfolding BuildGraph_neighbours by blast
    from below_not_UINT32_MAX[OF this] show False by simp
  qed
  have 2: "v \<in> graph_nodes ?G" if v: "v \<in> neighbours ?G u" for u v
  proof -
    from v have "u \<in> neighbours ?G v" by (simp only: BuildGraph_neighbours_sym)
    then show ?thesis by (rule neighbours_node)
  qed
  have 3: "nonneg (edge_weight ?G u v)" for u v
    unfolding BuildGraph_weights using c[of u v] by simp
  show ?thesis unfolding wf_graph_def using 1 2 3 by blast
qed

lemma is_walk_topology:
  "graph_nodes E = graph_nodes E' \<Longrightarrow> neighbours E = neighbours E' \<Longrightarrow> is_walk E p = is_walk E' p"
  by (induction E p rule: is_walk.induct) simp_all

lemma BuildGraph_same_topology:
  "graph_nodes (BuildGraph nodes L r bh ds E) = graph_nodes (BuildGraph nodes L' r bh' ds' E')"
  "neighbours (BuildGraph nodes L r bh ds E) = neighbours (BuildGraph nodes L' r bh' ds' E')"
proof -
  show n: "neighbours (BuildGraph nodes L r bh ds E) = neighbours (BuildGraph nodes L' r bh' ds' E')"
    by (intro ext set_eqI) (simp only: BuildGraph_neighbours)
  show "graph_nodes (BuildGraph nodes L r bh ds E) = graph_nodes (BuildGraph nodes L' r bh' ds' E')"
    by (intro set_eqI) (simp only: BuildGraph_graph_nodes n)
qed

subsection \<open>Evaluating the engine on concrete inputs\<close>

lemma dadd_Fin: "dadd (Fin a) (Fin b) = (if a + b = 0 then Fin 0 else fl (a + b))"
  by (simp add: dadd_def is_inf_def dval_def)

lemma dsub_Fin: "dsub (Fin a) (Fin b) = (if a - b = 0 then Fin 0 else fl (a - b))"
  by (simp add: dsub_def dneg_def dadd_def is_inf_def dval_def)

lemma dmul_Fin: "dmul (Fin a) (Fin b) = rnd ((a < 0) \<noteq> (b < 0)) (a * b)"
  by (simp add: dmul_def is_inf_def dsign_def dval_def)

lemma ddiv_Fin: "b \<noteq> 0 \<Longrightarrow> ddiv (Fin a) (Fin b) = rnd ((a < 0) \<noteq> (b < 0)) (a / b)"
  by (simp add: ddiv_def is_inf_def is_zero_def dsign_def dval_def)

lemma dsqrt_Fin: "0 \<le> r \<Longrightarrow> dsqrt (Fin r) = fl (sqrt r)"
  by (simp add: dsqrt_def)

lemma dless_Fin: "dless (Fin a) (Fin b) \<longleftrightarrow> a < b"
  by (simp add: dless_def dcls_def dval_def)

lemma dle_Fin: "dle (Fin a) (Fin b) \<longleftrightarrow> a \<le> b"
  by (simp add: dle_def dcls_def dval_def)

lemma dless_PInf: "dless (Fin a) PInf" "\<not> dless PInf x"
  by (cases x; simp add: dless_def dcls_def dval_def)+

lemma fl_neg_numeral: "numeral k < (9007199254740992::int) \<Longrightarrow> fl (- numeral k) = Fin (- numeral k)"
  using fl_int[of "- numeral k"] by simp

lemma sqrt_square: "0 \<le> x \<Longrightarrow> sqrt (x * x) = x"
  by simp

lemmas double_eval = dadd_Fin dsub_Fin dmul_Fin dsqrt_Fin dless_Fin dle_Fin dless_PInf rnd_pos
  fl_numeral fl_neg_numeral fl_0 fl_1

text \<open>The distances of the two scenarios are exact.\<close>

lemma distance_side_01: "distance (Vector (Fin 0) (Fin 0) (Fin 0)) (Vector (Fin 30) (Fin 40) (Fin 0)) = Fin 50"
  using sqrt_square[of 50] by (simp add: distance_def double_eval)

lemma distance_side_02: "distance (Vector (Fin 0) (Fin 0) (Fin 0)) (Vector (Fin 30) (Fin (- 40)) (Fin 0)) = Fin 50"
  using sqrt_square[of 50] by (simp add: distance_def double_eval)

lemma distance_diag_03: "distance (Vector (Fin 0) (Fin 0) (Fin 0)) (Vector (Fin 60) (Fin 0) (Fin 0)) = Fin 60"
  using sqrt_square[of 60] by (simp add: distance_def double_eval)

lemma distance_diag_12: "distance (Vector (Fin 30) (Fin 40) (Fin 0)) (Vector (Fin 30) (Fin (- 40)) (Fin 0)) = Fin 80"
  using sqrt_square[of 80] by (simp add: distance_def double_eval)

lemma distance_side_13: "distance (Vector (Fin 30) (Fin 40) (Fin 0)) (Vector (Fin 60) (Fin 0) (Fin 0)) = Fin 50"
  using sqrt_square[of 50] by (simp add: distance_def double_eval)

lemma distance_side_23: "distance (Vector (Fin 30) (Fin (- 40)) (Fin 0)) (Vector (Fin 60) (Fin 0) (Fin 0)) = Fin 50"
  using sqrt_square[of 50] by (simp add: distance_def double_eval)


text \<open>The weights and the sums of the scenario of the four receptions.\<close>

lemma div_01: "ddiv (Fin 1) (Fin 4203) = Fin (8777893920394743 / 36893488147419103232)"
  using fl_eqI[of "-13" "1 / 4203" "8777893920394743"] by (simp add: ddiv_Fin rnd_pos)

lemma cost_01: "dadd (Fin (8777893920394743 / 36893488147419103232)) (Fin 500) = Fin (1099512150979249 / 2199023255552)"
  using fl_eqI[of "8" "8777893920394743 / 36893488147419103232 + 500" "8796097207833992"] by (simp add: dadd_Fin)

lemma div_13: "ddiv (Fin 1) (Fin 4209) = Fin (8765380885583061 / 36893488147419103232)"
  using fl_eqI[of "-13" "1 / 4209" "8765380885583061"] by (simp add: ddiv_Fin rnd_pos)

lemma cost_13: "dadd (Fin (8765380885583061 / 36893488147419103232)) (Fin 500) = Fin (549756075116707 / 1099511627776)"
  using fl_eqI[of "8" "8765380885583061 / 36893488147419103232 + 500" "8796097201867312"] by (simp add: dadd_Fin)

lemma div_02: "ddiv (Fin 1) (Fin 4128) = Fin (558586000294015 / 2305843009213693952)"
  using fl_eqI[of "-13" "1 / 4128" "8937376004704240"] by (simp add: ddiv_Fin rnd_pos)

lemma cost_02: "dadd (Fin (558586000294015 / 2305843009213693952)) (Fin 500) = Fin (549756080242561 / 1099511627776)"
  using fl_eqI[of "8" "558586000294015 / 2305843009213693952 + 500" "8796097283880976"] by (simp add: dadd_Fin)

lemma div_23: "ddiv (Fin 1) (Fin 4287) = Fin (8605898798091697 / 36893488147419103232)"
  using fl_eqI[of "-13" "1 / 4287" "8605898798091697"] by (simp add: ddiv_Fin rnd_pos)

lemma cost_23: "dadd (Fin (8605898798091697 / 36893488147419103232)) (Fin 500) = Fin (8796097125820327 / 17592186044416)"
  using fl_eqI[of "8" "8605898798091697 / 36893488147419103232 + 500" "8796097125820327"] by (simp add: dadd_Fin)






lemma ddiv_500_1: "ddiv (Fin 500) (Fin 1) = Fin 500"
  by (simp add: ddiv_Fin rnd_pos fl_numeral)



lemma word_le_1_unat: "(w :: uint32_t) \<le> 1 \<longleftrightarrow> unat w \<le> 1"
  by (simp add: word_le_nat_alt)

lemmas build_eval = word_le_1_unat BuildGraph_def GetN_def upt_rec BuildGraph_pair_def Get_def edge_cost_def
     GetTrust_def GetSnr_def MakeKey_def fl_03 fl_1 fl_numeral dle_Fin dless_Fin
     RoutingEngine_new_def graph_insert_def insort_insert_key_def Let_def



lemma scenario_graph_t: "BuildGraph nodes4 Lt (Fin 55) {} (Fin 20) (RoutingEngine_new (Fin 1) (Fin 500)) = Gt"
  by (simp add: build_eval nodes4_def Lt_def Gt_def
      distance_side_01 distance_side_02 distance_diag_03 distance_diag_12 distance_side_13 distance_side_23
      div_01 div_13 div_02 div_23 cost_01 cost_13 cost_02 cost_23 ddiv_500_1)














section \<open>The routing claims\<close>

lemma run_calls_blackholes:
  "run_calls cs (L\<lparr>m_blackholes := B\<rparr>, C) =
     ((fst (run_calls cs (L, C)))\<lparr>m_blackholes := B\<rparr>, snd (run_calls cs (L, C)))"
proof (induction cs arbitrary: L C)
  case Nil
  then show ?case by simp
next
  case (Cons c cs)
  have step: "apply_call c (L\<lparr>m_blackholes := B\<rparr>, C) =
      ((fst (apply_call c (L, C)))\<lparr>m_blackholes := B\<rparr>, snd (apply_call c (L, C)))"
    by (simp add: apply_call_def UpdateMetric_def Let_def)
  show ?case
    using Cons.IH[of "fst (apply_call c (L, C))" "snd (apply_call c (L, C))"]
    by (simp add: step)
qed

text \<open>
  C3 (noninterference of the ground-truth malicious set). Neither the set the ledger
  holds (\<open>m_blackholes\<close>) nor the set passed to \<open>BuildGraph\<close> (\<open>blackholeNodes\<close>) has any
  effect on what \<open>GetTrust\<close> and \<open>GetSnr\<close> return, on the records and counters a sequence
  of \<open>UpdateMetric\<close> calls leaves, on the graph (edges and weights) \<open>BuildGraph\<close> builds,
  or on the path computed over it.
\<close>

theorem blackhole_set_noninterference:
  "GetTrust (L\<lparr>m_blackholes := B\<rparr>) a b = GetTrust L a b \<and>
   GetSnr (L\<lparr>m_blackholes := B\<rparr>) a b = GetSnr L a b \<and>
   run_calls cs (L\<lparr>m_blackholes := B\<rparr>, C) =
     ((fst (run_calls cs (L, C)))\<lparr>m_blackholes := B\<rparr>, snd (run_calls cs (L, C))) \<and>
   BuildGraph nodes (L\<lparr>m_blackholes := B\<rparr>) maxRange B1 defaultSnr E =
     BuildGraph nodes L maxRange B2 defaultSnr E \<and>
   CalculatePath (BuildGraph nodes (fst (run_calls cs (L\<lparr>m_blackholes := B\<rparr>, C))) maxRange B1 defaultSnr E) s d =
     CalculatePath (BuildGraph nodes (fst (run_calls cs (L, C))) maxRange B2 defaultSnr E) s d"
proof -
  have gt: "GetTrust (L'\<lparr>m_blackholes := B\<rparr>) i j = GetTrust L' i j" for L' i j
    by (simp add: GetTrust_def split: option.splits)
  have gs: "GetSnr (L'\<lparr>m_blackholes := B\<rparr>) i j = GetSnr L' i j" for L' i j
    by (simp add: GetSnr_def split: option.splits)
  have "BuildGraph_pair nodes (L'\<lparr>m_blackholes := B\<rparr>) maxRange defaultSnr i j =
        BuildGraph_pair nodes L' maxRange defaultSnr i j" for L' i j
    by (rule ext) (simp only: BuildGraph_pair_def edge_cost_def gt gs)
  then have g: "BuildGraph nodes (L'\<lparr>m_blackholes := B\<rparr>) maxRange B1 defaultSnr E =
           BuildGraph nodes L' maxRange B2 defaultSnr E" for L'
    by (simp add: BuildGraph_def)
  show ?thesis using g gt gs by (simp add: run_calls_blackholes)
qed

theorem blackhole_set_noninterference_witness:
  "GetTrust (fst (run_calls [drop_call 0 1 0] (BlockchainLedger_new\<lparr>m_blackholes := {1}\<rparr>, counters_zero))) 0 1 = 0.5 \<and>
   GetTrust (fst (run_calls [drop_call 0 1 0] (BlockchainLedger_new, counters_zero))) 0 1 = 0.5 \<and>
   BuildGraph nodes4 (Lt\<lparr>m_blackholes := {1}\<rparr>) (Fin 55) {1} (Fin 20) (RoutingEngine_new (Fin 1) (Fin 500)) = Gt \<and>
   BuildGraph nodes4 Lt (Fin 55) {} (Fin 20) (RoutingEngine_new (Fin 1) (Fin 500)) = Gt"
  using blackhole_set_noninterference [where L = BlockchainLedger_new and B = "{1}" and a = 0 and b = 1
          and cs = "[drop_call 0 1 0]" and C = counters_zero and nodes = nodes4 and maxRange = "Fin 55"
          and ?B1.0 = "{1}" and defaultSnr = "Fin 20" and E = "RoutingEngine_new (Fin 1) (Fin 500)" and ?B2.0 = "{}"
          and s = 0 and d = 3]
        blackhole_set_noninterference [where L = Lt and B = "{1}" and a = 0 and b = 1
          and cs = "[]" and C = counters_zero and nodes = nodes4 and maxRange = "Fin 55"
          and ?B1.0 = "{1}" and defaultSnr = "Fin 20" and E = "RoutingEngine_new (Fin 1) (Fin 500)" and ?B2.0 = "{}"
          and s = 0 and d = 3] scenario_graph_t
  by (simp add: apply_call_def drop_call_def UpdateMetric_def MakeKey_def BlockchainLedger_new_def
      LinkMetric_new_def Let_def GetTrust_def)




text \<open>
  The part of C5 that holds: the modes, the ledgers and the ground-truth sets have no
  effect on the edges. \<open>j\<close> is a neighbour of \<open>i\<close> exactly when both are distinct nodes of
  the container, both have a position, and the distance that \<open>BuildGraph\<close> computes for
  the pair (in double arithmetic, for the smaller identifier first) is below
  \<open>maxRange\<close>. A path that the Baseline mode finds is a route of the Proposed graph, and
  the Proposed mode finds a path if the cost of that route there is finite.
\<close>

lemma edges_in_both_modes:
  "j \<in> neighbours (BuildGraph nodes L maxRange bh ds E) i \<longleftrightarrow>
     i < GetN nodes \<and> j < GetN nodes \<and> i \<noteq> j \<and>
     (\<exists>p q. Get nodes (min i j) = Some p \<and> Get nodes (max i j) = Some q \<and>
            dless (distance p q) maxRange)"
  unfolding BuildGraph_neighbours by (auto simp: linked_def split: option.splits)

lemma connectivity_if_finite:
  fixes E :: RoutingEngine and nodes Lb Lp maxRange bhb bhp dsb dsp
  defines "Gb \<equiv> BuildGraph nodes Lb maxRange bhb dsb (SetUseBlockchain False E)"
  defines "Gp \<equiv> BuildGraph nodes Lp maxRange bhp dsp (SetUseBlockchain True E)"
  assumes "m_alpha E = Fin a" and "0 \<le> a" and "m_beta E = Fin b" and "0 \<le> b"
    and "dless (Fin 0) dsp"
    and "CalculatePath Gb s d = Some pb" and "pb \<noteq> []" and "route_cost Gp pb \<noteq> PInf"
  shows "\<exists>pp. CalculatePath Gp s d = Some pp \<and> pp \<noteq> []"
proof -
  have wfb: "wf_graph Gb"
    unfolding Gb_def by (intro wf_graph_BuildGraph) (simp add: SetUseBlockchain_def)
  have wfp: "wf_graph Gp"
    unfolding Gp_def using assms(3-7) by (intro wf_graph_BuildGraph) (simp add: SetUseBlockchain_def)
  from CalculatePath_wf[OF wfb, of s d] assms(8,9) have "is_route Gb s d pb" by auto
  moreover have "is_walk Gb pb = is_walk Gp pb"
    unfolding Gb_def Gp_def by (rule is_walk_topology) (rule BuildGraph_same_topology)+
  ultimately have r: "is_route Gp s d pb" by (simp add: is_route_def)
  from CalculatePath_wf[OF wfp, of s d] obtain pp where
    pp: "CalculatePath Gp s d = Some pp"
        "pp = [] \<longrightarrow> (\<forall>q. is_route Gp s d q \<longrightarrow> route_cost Gp q = PInf)"
    by (auto split: if_splits)
  from pp(2) r assms(10) have "pp \<noteq> []" by blast
  with pp(1) show ?thesis by blast
qed


section \<open>The callbacks\<close>

lemmas parse_eval = ParseNodeIdFromContext_def str_find_def stoul_def isspace_def isdigit_def
  decimal_def digit_value_def Let_def

lemma parse_well_formed:
  "ParseNodeIdFromContext ''/NodeList/5/DeviceList/0/$ns3::WifiNetDevice/Phy/PhyRxDrop'' = Inr 5"
  by (simp add: parse_eval)

lemma parse_no_digits: "ParseNodeIdFromContext ''/NodeList/x/Phy'' = Inl invalid_argument"
  by (simp add: parse_eval)

lemma parse_no_prefix: "ParseNodeIdFromContext ''/Nodes/3'' = Inr UINT32_MAX"
  by (simp add: parse_eval)

text \<open>
  The part of C8 that holds: once the parser has returned an identifier, an invalid one
  (the sentinel, or one not below the size of the node container) makes each callback
  return with the context and the counters unchanged.
\<close>

lemma callbacks_skip_invalid_id:
  assumes "ParseNodeIdFromContext context = Inr r"
    and "r = UINT32_MAX \<or> r \<ge> GetN (ctx_nodes (fst st))"
  shows "PhyRxEndCallback context st = Inr st"
    and "PhyRxDropCallback context st = Inr st"
    and "Ipv4L3DropCallback context srcAddr st = Inr st"
  using assms
  by (auto simp: PhyRxEndCallback_def PhyRxDropCallback_def Ipv4L3DropCallback_def Let_def
      split: prod.splits)

text \<open>
  C8 (callbacks never raise), at the context \<open>/NodeList/x/Phy\<close>: \<open>std::stoul\<close> finds no
  digit and throws \<open>std::invalid_argument\<close>; nothing catches it, and it leaves each of the
  three callbacks, whatever the state.
\<close>

theorem callbacks_raise_on_unparsable_id:
  "PhyRxEndCallback ''/NodeList/x/Phy'' st = Inl invalid_argument \<and>
   PhyRxDropCallback ''/NodeList/x/Phy'' st = Inl invalid_argument \<and>
   Ipv4L3DropCallback ''/NodeList/x/Phy'' srcAddr st = Inl invalid_argument"
  by (simp add: PhyRxEndCallback_def PhyRxDropCallback_def Ipv4L3DropCallback_def parse_no_digits)

end
